theory Spec2Isabelle
  imports Main "HOL-Library.Word" "HOL-Library.Multiset"
begin

unbundle bit_operations_syntax

section \<open>Data model\<close>

text \<open>
  Modelled from the spec: the type \<open>byte\<close> is declared in \<open>fecpp.h\<close>, which is not
  part of the sources; the spec gives it as an 8-bit unsigned value (and the tables below
  hold values up to \<open>0xFF\<close> and are indexed by it).
\<close>

type_synonym byte = "8 word"

text \<open>
  The exceptions of the source, by the names the spec gives them:
  \<open>InvalidParameters\<close> (\<open>invalid_argument\<close> of the constructor),
  \<open>InvalidIndex\<close> (\<open>invalid_argument\<close> of \<open>encode\<close>),
  \<open>DuplicateIndex\<close> (\<open>logic_error\<close>, shuffle failed),
  \<open>SingularMatrix\<close> (\<open>invalid_argument\<close> of \<open>invert_mat\<close>),
  \<open>BadIndex\<close> (\<open>logic_error\<close> of \<open>build_decode_matrix\<close>).
  \<open>OutOfBounds\<close> stands for an access outside an array or vector, which the source
  does not check (undefined behaviour in C++).

  Arrays and vectors are lists. Where the surrounding code keeps an index in range (the
  matrix routines on a \<open>k\<close> by \<open>k\<close> matrix, \<open>addmul\<close> on buffers of at least \<open>sz\<close> bytes) the
  model reads with \<open>!\<close> and writes with list update, and the properties below state the
  sizes they need. Where an index can leave the array on inputs that the properties cover
  (the constructor, \<open>shuffle\<close>) the access is checked and yields \<open>OutOfBounds\<close>. Sizes,
  counts and indices of the source (\<open>size_t\<close>, \<open>int\<close>) are natural numbers or integers; they
  stay far below the range of the machine types for every \<open>k\<close> and \<open>n\<close> that the codec
  accepts (\<open>k, n \<le> 256\<close>).
\<close>

datatype error =
  InvalidParameters | InvalidIndex | DuplicateIndex | SingularMatrix | BadIndex | OutOfBounds

section \<open>Field tables\<close>

definition GF_EXP :: "byte list" where
  "GF_EXP = [
   0x01, 0x02, 0x04, 0x08, 0x10, 0x20, 0x40, 0x80, 0x1D, 0x3A, 0x74,
   0xE8, 0xCD, 0x87, 0x13, 0x26, 0x4C, 0x98, 0x2D, 0x5A, 0xB4, 0x75,
   0xEA, 0xC9, 0x8F, 0x03, 0x06, 0x0C, 0x18, 0x30, 0x60, 0xC0, 0x9D,
   0x27, 0x4E, 0x9C, 0x25, 0x4A, 0x94, 0x35, 0x6A, 0xD4, 0xB5, 0x77,
   0xEE, 0xC1, 0x9F, 0x23, 0x46, 0x8C, 0x05, 0x0A, 0x14, 0x28, 0x50,
   0xA0, 0x5D, 0xBA, 0x69, 0xD2, 0xB9, 0x6F, 0xDE, 0xA1, 0x5F, 0xBE,
   0x61, 0xC2, 0x99, 0x2F, 0x5E, 0xBC, 0x65, 0xCA, 0x89, 0x0F, 0x1E,
   0x3C, 0x78, 0xF0, 0xFD, 0xE7, 0xD3, 0xBB, 0x6B, 0xD6, 0xB1, 0x7F,
   0xFE, 0xE1, 0xDF, 0xA3, 0x5B, 0xB6, 0x71, 0xE2, 0xD9, 0xAF, 0x43,
   0x86, 0x11, 0x22, 0x44, 0x88, 0x0D, 0x1A, 0x34, 0x68, 0xD0, 0xBD,
   0x67, 0xCE, 0x81, 0x1F, 0x3E, 0x7C, 0xF8, 0xED, 0xC7, 0x93, 0x3B,
   0x76, 0xEC, 0xC5, 0x97, 0x33, 0x66, 0xCC, 0x85, 0x17, 0x2E, 0x5C,
   0xB8, 0x6D, 0xDA, 0xA9, 0x4F, 0x9E, 0x21, 0x42, 0x84, 0x15, 0x2A,
   0x54, 0xA8, 0x4D, 0x9A, 0x29, 0x52, 0xA4, 0x55, 0xAA, 0x49, 0x92,
   0x39, 0x72, 0xE4, 0xD5, 0xB7, 0x73, 0xE6, 0xD1, 0xBF, 0x63, 0xC6,
   0x91, 0x3F, 0x7E, 0xFC, 0xE5, 0xD7, 0xB3, 0x7B, 0xF6, 0xF1, 0xFF,
   0xE3, 0xDB, 0xAB, 0x4B, 0x96, 0x31, 0x62, 0xC4, 0x95, 0x37, 0x6E,
   0xDC, 0xA5, 0x57, 0xAE, 0x41, 0x82, 0x19, 0x32, 0x64, 0xC8, 0x8D,
   0x07, 0x0E, 0x1C, 0x38, 0x70, 0xE0, 0xDD, 0xA7, 0x53, 0xA6, 0x51,
   0xA2, 0x59, 0xB2, 0x79, 0xF2, 0xF9, 0xEF, 0xC3, 0x9B, 0x2B, 0x56,
   0xAC, 0x45, 0x8A, 0x09, 0x12, 0x24, 0x48, 0x90, 0x3D, 0x7A, 0xF4,
   0xF5, 0xF7, 0xF3, 0xFB, 0xEB, 0xCB, 0x8B, 0x0B, 0x16, 0x2C, 0x58,
   0xB0, 0x7D, 0xFA, 0xE9, 0xCF, 0x83, 0x1B, 0x36, 0x6C, 0xD8, 0xAD,
   0x47, 0x8E, 0x01, 0x02, 0x04, 0x08, 0x10, 0x20, 0x40, 0x80, 0x1D,
   0x3A, 0x74, 0xE8, 0xCD, 0x87, 0x13, 0x26, 0x4C, 0x98, 0x2D, 0x5A,
   0xB4, 0x75, 0xEA, 0xC9, 0x8F, 0x03, 0x06, 0x0C, 0x18, 0x30, 0x60,
   0xC0, 0x9D, 0x27, 0x4E, 0x9C, 0x25, 0x4A, 0x94, 0x35, 0x6A, 0xD4,
   0xB5, 0x77, 0xEE, 0xC1, 0x9F, 0x23, 0x46, 0x8C, 0x05, 0x0A, 0x14,
   0x28, 0x50, 0xA0, 0x5D, 0xBA, 0x69, 0xD2, 0xB9, 0x6F, 0xDE, 0xA1,
   0x5F, 0xBE, 0x61, 0xC2, 0x99, 0x2F, 0x5E, 0xBC, 0x65, 0xCA, 0x89,
   0x0F, 0x1E, 0x3C, 0x78, 0xF0, 0xFD, 0xE7, 0xD3, 0xBB, 0x6B, 0xD6,
   0xB1, 0x7F, 0xFE, 0xE1, 0xDF, 0xA3, 0x5B, 0xB6, 0x71, 0xE2, 0xD9,
   0xAF, 0x43, 0x86, 0x11, 0x22, 0x44, 0x88, 0x0D, 0x1A, 0x34, 0x68,
   0xD0, 0xBD, 0x67, 0xCE, 0x81, 0x1F, 0x3E, 0x7C, 0xF8, 0xED, 0xC7,
   0x93, 0x3B, 0x76, 0xEC, 0xC5, 0x97, 0x33, 0x66, 0xCC, 0x85, 0x17,
   0x2E, 0x5C, 0xB8, 0x6D, 0xDA, 0xA9, 0x4F, 0x9E, 0x21, 0x42, 0x84,
   0x15, 0x2A, 0x54, 0xA8, 0x4D, 0x9A, 0x29, 0x52, 0xA4, 0x55, 0xAA,
   0x49, 0x92, 0x39, 0x72, 0xE4, 0xD5, 0xB7, 0x73, 0xE6, 0xD1, 0xBF,
   0x63, 0xC6, 0x91, 0x3F, 0x7E, 0xFC, 0xE5, 0xD7, 0xB3, 0x7B, 0xF6,
   0xF1, 0xFF, 0xE3, 0xDB, 0xAB, 0x4B, 0x96, 0x31, 0x62, 0xC4, 0x95,
   0x37, 0x6E, 0xDC, 0xA5, 0x57, 0xAE, 0x41, 0x82, 0x19, 0x32, 0x64,
   0xC8, 0x8D, 0x07, 0x0E, 0x1C, 0x38, 0x70, 0xE0, 0xDD, 0xA7, 0x53,
   0xA6, 0x51, 0xA2, 0x59, 0xB2, 0x79, 0xF2, 0xF9, 0xEF, 0xC3, 0x9B,
   0x2B, 0x56, 0xAC, 0x45, 0x8A, 0x09, 0x12, 0x24, 0x48, 0x90, 0x3D,
   0x7A, 0xF4, 0xF5, 0xF7, 0xF3, 0xFB, 0xEB, 0xCB, 0x8B, 0x0B, 0x16,
   0x2C, 0x58, 0xB0, 0x7D, 0xFA, 0xE9, 0xCF, 0x83, 0x1B, 0x36, 0x6C,
   0xD8, 0xAD, 0x47, 0x8E]"

definition GF_LOG :: "byte list" where
  "GF_LOG = [
   0xFF, 0x00, 0x01, 0x19, 0x02, 0x32, 0x1A, 0xC6, 0x03, 0xDF, 0x33,
   0xEE, 0x1B, 0x68, 0xC7, 0x4B, 0x04, 0x64, 0xE0, 0x0E, 0x34, 0x8D,
   0xEF, 0x81, 0x1C, 0xC1, 0x69, 0xF8, 0xC8, 0x08, 0x4C, 0x71, 0x05,
   0x8A, 0x65, 0x2F, 0xE1, 0x24, 0x0F, 0x21, 0x35, 0x93, 0x8E, 0xDA,
   0xF0, 0x12, 0x82, 0x45, 0x1D, 0xB5, 0xC2, 0x7D, 0x6A, 0x27, 0xF9,
   0xB9, 0xC9, 0x9A, 0x09, 0x78, 0x4D, 0xE4, 0x72, 0xA6, 0x06, 0xBF,
   0x8B, 0x62, 0x66, 0xDD, 0x30, 0xFD, 0xE2, 0x98, 0x25, 0xB3, 0x10,
   0x91, 0x22, 0x88, 0x36, 0xD0, 0x94, 0xCE, 0x8F, 0x96, 0xDB, 0xBD,
   0xF1, 0xD2, 0x13, 0x5C, 0x83, 0x38, 0x46, 0x40, 0x1E, 0x42, 0xB6,
   0xA3, 0xC3, 0x48, 0x7E, 0x6E, 0x6B, 0x3A, 0x28, 0x54, 0xFA, 0x85,
   0xBA, 0x3D, 0xCA, 0x5E, 0x9B, 0x9F, 0x0A, 0x15, 0x79, 0x2B, 0x4E,
   0xD4, 0xE5, 0xAC, 0x73, 0xF3, 0xA7, 0x57, 0x07, 0x70, 0xC0, 0xF7,
   0x8C, 0x80, 0x63, 0x0D, 0x67, 0x4A, 0xDE, 0xED, 0x31, 0xC5, 0xFE,
   0x18, 0xE3, 0xA5, 0x99, 0x77, 0x26, 0xB8, 0xB4, 0x7C, 0x11, 0x44,
   0x92, 0xD9, 0x23, 0x20, 0x89, 0x2E, 0x37, 0x3F, 0xD1, 0x5B, 0x95,
   0xBC, 0xCF, 0xCD, 0x90, 0x87, 0x97, 0xB2, 0xDC, 0xFC, 0xBE, 0x61,
   0xF2, 0x56, 0xD3, 0xAB, 0x14, 0x2A, 0x5D, 0x9E, 0x84, 0x3C, 0x39,
   0x53, 0x47, 0x6D, 0x41, 0xA2, 0x1F, 0x2D, 0x43, 0xD8, 0xB7, 0x7B,
   0xA4, 0x76, 0xC4, 0x17, 0x49, 0xEC, 0x7F, 0x0C, 0x6F, 0xF6, 0x6C,
   0xA1, 0x3B, 0x52, 0x29, 0x9D, 0x55, 0xAA, 0xFB, 0x60, 0x86, 0xB1,
   0xBB, 0xCC, 0x3E, 0x5A, 0xCB, 0x59, 0x5F, 0xB0, 0x9C, 0xA9, 0xA0,
   0x51, 0x0B, 0xF5, 0x16, 0xEB, 0x7A, 0x75, 0x2C, 0xD7, 0x4F, 0xAE,
   0xD5, 0xE9, 0xE6, 0xE7, 0xAD, 0xE8, 0x74, 0xD6, 0xF4, 0xEA, 0xA8,
   0x50, 0x58, 0xAF]"

definition GF_INVERSE :: "byte list" where
  "GF_INVERSE = [
   0x00, 0x01, 0x8E, 0xF4, 0x47, 0xA7, 0x7A, 0xBA, 0xAD, 0x9D, 0xDD,
   0x98, 0x3D, 0xAA, 0x5D, 0x96, 0xD8, 0x72, 0xC0, 0x58, 0xE0, 0x3E,
   0x4C, 0x66, 0x90, 0xDE, 0x55, 0x80, 0xA0, 0x83, 0x4B, 0x2A, 0x6C,
   0xED, 0x39, 0x51, 0x60, 0x56, 0x2C, 0x8A, 0x70, 0xD0, 0x1F, 0x4A,
   0x26, 0x8B, 0x33, 0x6E, 0x48, 0x89, 0x6F, 0x2E, 0xA4, 0xC3, 0x40,
   0x5E, 0x50, 0x22, 0xCF, 0xA9, 0xAB, 0x0C, 0x15, 0xE1, 0x36, 0x5F,
   0xF8, 0xD5, 0x92, 0x4E, 0xA6, 0x04, 0x30, 0x88, 0x2B, 0x1E, 0x16,
   0x67, 0x45, 0x93, 0x38, 0x23, 0x68, 0x8C, 0x81, 0x1A, 0x25, 0x61,
   0x13, 0xC1, 0xCB, 0x63, 0x97, 0x0E, 0x37, 0x41, 0x24, 0x57, 0xCA,
   0x5B, 0xB9, 0xC4, 0x17, 0x4D, 0x52, 0x8D, 0xEF, 0xB3, 0x20, 0xEC,
   0x2F, 0x32, 0x28, 0xD1, 0x11, 0xD9, 0xE9, 0xFB, 0xDA, 0x79, 0xDB,
   0x77, 0x06, 0xBB, 0x84, 0xCD, 0xFE, 0xFC, 0x1B, 0x54, 0xA1, 0x1D,
   0x7C, 0xCC, 0xE4, 0xB0, 0x49, 0x31, 0x27, 0x2D, 0x53, 0x69, 0x02,
   0xF5, 0x18, 0xDF, 0x44, 0x4F, 0x9B, 0xBC, 0x0F, 0x5C, 0x0B, 0xDC,
   0xBD, 0x94, 0xAC, 0x09, 0xC7, 0xA2, 0x1C, 0x82, 0x9F, 0xC6, 0x34,
   0xC2, 0x46, 0x05, 0xCE, 0x3B, 0x0D, 0x3C, 0x9C, 0x08, 0xBE, 0xB7,
   0x87, 0xE5, 0xEE, 0x6B, 0xEB, 0xF2, 0xBF, 0xAF, 0xC5, 0x64, 0x07,
   0x7B, 0x95, 0x9A, 0xAE, 0xB6, 0x12, 0x59, 0xA5, 0x35, 0x65, 0xB8,
   0xA3, 0x9E, 0xD2, 0xF7, 0x62, 0x5A, 0x85, 0x7D, 0xA8, 0x3A, 0x29,
   0x71, 0xC8, 0xF6, 0xF9, 0x43, 0xD7, 0xD6, 0x10, 0x73, 0x76, 0x78,
   0x99, 0x0A, 0x19, 0x91, 0x14, 0x3F, 0xE6, 0xF0, 0x86, 0xB1, 0xE2,
   0xF1, 0xFA, 0x74, 0xF3, 0xB4, 0x6D, 0x21, 0xB2, 0x6A, 0xE3, 0xE7,
   0xB5, 0xEA, 0x03, 0x8F, 0xD3, 0xC9, 0x42, 0xD4, 0xE8, 0x75, 0x7F,
   0xFF, 0x7E, 0xFD]"

text \<open>
  The contents of \<open>gf_mul_table[i][j]\<close> once \<open>init_mul_table\<close> has run: its first pair
  of loops stores \<open>GF_EXP[(GF_LOG[i] + GF_LOG[j]) % 255]\<close> everywhere, its second loop
  then clears row 0 and column 0.
\<close>

definition gf_mul_table :: "byte \<Rightarrow> byte \<Rightarrow> byte" where
  "gf_mul_table i j =
     (if i = 0 \<or> j = 0 then 0
      else GF_EXP ! ((unat (GF_LOG ! unat i) + unat (GF_LOG ! unat j)) mod 255))"

text \<open>The macro \<open>gf_mul(x,y)\<close>.\<close>

abbreviation gf_mul :: "byte \<Rightarrow> byte \<Rightarrow> byte" where
  "gf_mul x y \<equiv> gf_mul_table x y"

section \<open>Vector kernel\<close>

text \<open>\<open>memcpy(dst, src, n)\<close> and \<open>memset(dst, v, n)\<close> on the first \<open>n\<close> bytes of a buffer.\<close>

definition memcpy :: "'a list \<Rightarrow> 'a list \<Rightarrow> nat \<Rightarrow> 'a list" where
  "memcpy dst src n = take n src @ drop n dst"

definition memset :: "'a list \<Rightarrow> 'a \<Rightarrow> nat \<Rightarrow> 'a list" where
  "memset dst v n = replicate n v @ drop n dst"

text \<open>One statement \<open>dst[j] ^= mul_base[src[j]]\<close>.\<close>

definition xor_at :: "(byte \<Rightarrow> byte) \<Rightarrow> byte list \<Rightarrow> nat \<Rightarrow> byte list \<Rightarrow> byte list" where
  "xor_at mul_base src j dst = dst[j := (dst ! j) XOR mul_base (src ! j)]"

text \<open>
  \<open>addmul\<close>: the buffers are the bytes from the pointers \<open>dst\<close> and \<open>src\<close> on; \<open>d\<close> is the
  distance both pointers have advanced, \<open>lim\<close> the distance of the pointer \<open>lim\<close> from the
  initial \<open>dst\<close> (negative when \<open>sz < 15\<close>). The first loop is the one unrolled 16 times.
\<close>

function addmul_unrolled ::
  "(byte \<Rightarrow> byte) \<Rightarrow> byte list \<Rightarrow> byte list \<Rightarrow> int \<Rightarrow> int \<Rightarrow> byte list \<times> int" where
  "addmul_unrolled mul_base src dst d lim =
     (if d < lim
      then addmul_unrolled mul_base src
             (fold (\<lambda>j. xor_at mul_base src (nat d + j))
                [0, 1, 2, 3, 4, 5, 6, 7, 8, 9, 10, 11, 12, 13, 14, 15] dst)
             (d + 16) lim
      else (dst, d))"
  by pat_completeness auto
termination
  by (relation "measure (\<lambda>(mul_base, src, dst, d, lim). nat (lim - d))") auto

declare addmul_unrolled.simps [simp del]

function addmul_tail ::
  "(byte \<Rightarrow> byte) \<Rightarrow> byte list \<Rightarrow> byte list \<Rightarrow> int \<Rightarrow> int \<Rightarrow> byte list" where
  "addmul_tail mul_base src dst d lim =
     (if d < lim
      then addmul_tail mul_base src (xor_at mul_base src (nat d) dst) (d + 1) lim
      else dst)"
  by pat_completeness auto
termination
  by (relation "measure (\<lambda>(mul_base, src, dst, d, lim). nat (lim - d))") auto

declare addmul_tail.simps [simp del]

definition addmul :: "byte list \<Rightarrow> byte list \<Rightarrow> byte \<Rightarrow> int \<Rightarrow> byte list" where
  "addmul dst src c sz =
     (if c = 0 then dst
      else
        let mul_base = gf_mul_table c;
            lim = sz - 16 + 1;
            (dst, d) = addmul_unrolled mul_base src dst 0 lim;
            lim = lim + 16 - 1
        in addmul_tail mul_base src dst d lim)"

definition addmul_k ::
  "byte list \<Rightarrow> byte list list \<Rightarrow> byte list \<Rightarrow> nat \<Rightarrow> nat \<Rightarrow> byte list" where
  "addmul_k dst srcs cs sz k =
     fold (\<lambda>i dst.
             let c = cs ! i
             in if c = 0 then dst
                else fold (xor_at (gf_mul_table c) (srcs ! i)) [0..<sz] dst)
       [0..<k] dst"

section \<open>Matrix engine\<close>

text \<open>
  \<open>matmul\<close>: \<open>c\<close> is overwritten with the product of \<open>a\<close> (\<open>n\<close> by \<open>k\<close>) and \<open>b\<close>
  (\<open>k\<close> by \<open>m\<close>), all row-major.
\<close>

definition matmul_acc :: "byte list \<Rightarrow> byte list \<Rightarrow> nat \<Rightarrow> nat \<Rightarrow> nat \<Rightarrow> nat \<Rightarrow> byte" where
  "matmul_acc a b k m row col =
     fold (\<lambda>i acc. acc XOR gf_mul (a ! (row * k + i)) (b ! (col + i * m))) [0..<k] 0"

definition matmul ::
  "byte list \<Rightarrow> byte list \<Rightarrow> byte list \<Rightarrow> nat \<Rightarrow> nat \<Rightarrow> nat \<Rightarrow> byte list" where
  "matmul a b c n k m =
     fold (\<lambda>row c. fold (\<lambda>col c. c[row * m + col := matmul_acc a b k m row col]) [0..<m] c)
       [0..<n] c"

text \<open>
  \<open>invert_mat\<close>. The pivot search: first the diagonal, then the scan over the rows and
  columns not yet used (the two nested loops with \<open>goto found_piv\<close>).
\<close>

function scan_ix :: "byte list \<Rightarrow> nat list \<Rightarrow> nat \<Rightarrow> nat \<Rightarrow> nat \<Rightarrow> error + nat option" where
  "scan_ix src ipiv k row ix =
     (if ix < k then
        (if ipiv ! ix = 0 then
           (if src ! (row * k + ix) \<noteq> 0 then Inr (Some ix)
            else scan_ix src ipiv k row (ix + 1))
         else if ipiv ! ix > 1 then Inl SingularMatrix
         else scan_ix src ipiv k row (ix + 1))
      else Inr None)"
  by pat_completeness auto
termination
  by (relation "measure (\<lambda>(src, ipiv, k, row, ix). k - ix)") auto

declare scan_ix.simps [simp del]

function scan_row :: "byte list \<Rightarrow> nat list \<Rightarrow> nat \<Rightarrow> nat \<Rightarrow> error + nat \<times> nat" where
  "scan_row src ipiv k row =
     (if row < k then
        (if ipiv ! row \<noteq> 1 then
           (case scan_ix src ipiv k row 0 of
              Inl e \<Rightarrow> Inl e
            | Inr (Some ix) \<Rightarrow> Inr (row, ix)
            | Inr None \<Rightarrow> scan_row src ipiv k (row + 1))
         else scan_row src ipiv k (row + 1))
      else Inl SingularMatrix)"
  by pat_completeness auto
termination
  by (relation "measure (\<lambda>(src, ipiv, k, row). k - row)") auto

declare scan_row.simps [simp del]

definition find_piv :: "byte list \<Rightarrow> nat list \<Rightarrow> nat \<Rightarrow> nat \<Rightarrow> error + nat \<times> nat" where
  "find_piv src ipiv k col =
     (if ipiv ! col \<noteq> 1 \<and> src ! (col * k + col) \<noteq> 0 then Inr (col, col)
      else scan_row src ipiv k 0)"

definition swap_rows :: "byte list \<Rightarrow> nat \<Rightarrow> nat \<Rightarrow> nat \<Rightarrow> byte list" where
  "swap_rows src k irow icol =
     fold (\<lambda>i s. s[irow * k + i := s ! (icol * k + i), icol * k + i := s ! (irow * k + i)])
       [0..<k] src"

definition scale_row :: "byte list \<Rightarrow> nat \<Rightarrow> nat \<Rightarrow> byte \<Rightarrow> byte list" where
  "scale_row src k icol c =
     fold (\<lambda>i s. s[icol * k + i := gf_mul c (s ! (icol * k + i))]) [0..<k] src"

text \<open>
  The elimination loop, \<open>elim_row\<close> being its body for the row \<open>i\<close>. \<open>p\<close> and
  \<open>pivot_row\<close> point to different rows of the matrix (\<open>i \<noteq> icol\<close>), so the two buffers
  handed to \<open>addmul\<close> do not overlap.
\<close>

definition elim_row :: "nat \<Rightarrow> nat \<Rightarrow> nat \<Rightarrow> byte list \<Rightarrow> byte list" where
  "elim_row k icol i s =
     (if i \<noteq> icol then
        let c = s ! (i * k + icol);
            s = s[i * k + icol := 0]
        in take (i * k) s
           @ addmul (take k (drop (i * k) s)) (take k (drop (icol * k) s)) c (int k)
           @ drop (i * k + k) s
      else s)"

definition eliminate :: "byte list \<Rightarrow> nat \<Rightarrow> nat \<Rightarrow> byte list" where
  "eliminate src k icol = fold (elim_row k icol) [0..<k] src"

text \<open>
  One turn of the loop over \<open>col\<close>. The state is the matrix and the vectors \<open>indxr\<close>,
  \<open>indxc\<close> and \<open>ipiv\<close>. \<open>irow\<close> and \<open>icol\<close> are stored only after a pivot was found, so
  the value \<open>-1\<close> never reaches the vectors and they are modelled over the naturals.
\<close>

definition pivot_step ::
  "nat \<Rightarrow> nat \<Rightarrow> byte list \<times> nat list \<times> nat list \<times> nat list
     \<Rightarrow> error + byte list \<times> nat list \<times> nat list \<times> nat list" where
  "pivot_step k col st =
     (case st of (src, indxr, indxc, ipiv) \<Rightarrow>
        (case find_piv src ipiv k col of
           Inl e \<Rightarrow> Inl e
         | Inr (irow, icol) \<Rightarrow>
             let ipiv = ipiv[icol := ipiv ! icol + 1];
                 src = (if irow \<noteq> icol then swap_rows src k irow icol else src);
                 indxr = indxr[col := irow];
                 indxc = indxc[col := icol];
                 c = src ! (icol * k + icol)
             in if c = 0 then Inl SingularMatrix
                else
                  let src = (if c \<noteq> 1
                             then scale_row (src[icol * k + icol := 1]) k icol
                                    (GF_INVERSE ! unat c)
                             else src);
                      id_row = (replicate k 0)[icol := 1];
                      src = (if take k (drop (icol * k) src) \<noteq> id_row
                             then eliminate src k icol else src)
                  in Inr (src, indxr, indxc, ipiv)))"

function pivot_loop ::
  "nat \<Rightarrow> nat \<Rightarrow> byte list \<times> nat list \<times> nat list \<times> nat list
     \<Rightarrow> error + byte list \<times> nat list \<times> nat list \<times> nat list" where
  "pivot_loop k col st =
     (if col < k then
        (case pivot_step k col st of
           Inl e \<Rightarrow> Inl e
         | Inr st' \<Rightarrow> pivot_loop k (col + 1) st')
      else Inr st)"
  by pat_completeness auto
termination
  by (relation "measure (\<lambda>(k, col, st). k - col)") auto

declare pivot_loop.simps [simp del]

text \<open>
  The closing loop, \<open>col\<close> from \<open>k-1\<close> down to 0. The two \<open>fprintf\<close> branches print and
  leave the matrix alone.
\<close>

definition swap_cols :: "byte list \<Rightarrow> nat \<Rightarrow> nat \<Rightarrow> nat \<Rightarrow> byte list" where
  "swap_cols src k a b =
     fold (\<lambda>row s. s[row * k + a := s ! (row * k + b), row * k + b := s ! (row * k + a)])
       [0..<k] src"

definition unscramble :: "byte list \<Rightarrow> nat list \<Rightarrow> nat list \<Rightarrow> nat \<Rightarrow> byte list" where
  "unscramble src indxr indxc k =
     fold (\<lambda>col s.
             if indxr ! col \<ge> k then s
             else if indxc ! col \<ge> k then s
             else if indxr ! col \<noteq> indxc ! col then swap_cols s k (indxr ! col) (indxc ! col)
             else s)
       (rev [0..<k]) src"

definition invert_mat :: "byte list \<Rightarrow> nat \<Rightarrow> error + byte list" where
  "invert_mat src k =
     (case pivot_loop k 0 (src, replicate k 0, replicate k 0, replicate k 0) of
        Inl e \<Rightarrow> Inl e
      | Inr (src, indxr, indxc, ipiv) \<Rightarrow> Inr (unscramble src indxr indxc k))"

text \<open>
  \<open>invert_vdm\<close>. With \<open>k = 0\<close> the statement \<open>c[k-1] = p[0]\<close> is outside the empty
  vectors. The function returns 0 on every path; the result here is the matrix.
\<close>

definition vdm_coeffs :: "byte list \<Rightarrow> nat \<Rightarrow> byte list" where
  "vdm_coeffs p k =
     fold (\<lambda>i c.
             let p_i = p ! i;
                 c = fold (\<lambda>j c. c[j := (c ! j) XOR gf_mul p_i (c ! (j + 1))])
                       [k - 1 - (i - 1)..<k - 1] c
             in c[k - 1 := (c ! (k - 1)) XOR p_i])
       [1..<k] ((replicate k 0)[k - 1 := p ! 0])"

definition vdm_row ::
  "byte list \<Rightarrow> byte list \<Rightarrow> nat \<Rightarrow> nat \<Rightarrow> byte list \<times> byte list \<Rightarrow> byte list \<times> byte list" where
  "vdm_row c p k row st =
     (case st of (src, b) \<Rightarrow>
        let xx = p ! row;
            (b, t) = fold (\<lambda>i (b, t).
                             let b = b[i := (c ! (i + 1)) XOR gf_mul xx (b ! (i + 1))]
                             in (b, gf_mul xx t XOR (b ! i)))
                       (rev [0..<k - 1]) (b[k - 1 := 1], 1)
        in (fold (\<lambda>col s. s[col * k + row := gf_mul (GF_INVERSE ! unat t) (b ! col)])
              [0..<k] src, b))"

definition invert_vdm :: "byte list \<Rightarrow> nat \<Rightarrow> error + byte list" where
  "invert_vdm src k =
     (if k = 1 then Inr src
      else if k = 0 then Inl OutOfBounds
      else
        let p = map (\<lambda>i. src ! (1 + i * k)) [0..<k];
            c = vdm_coeffs p k
        in Inr (fst (fold (vdm_row c p k) [0..<k] (src, replicate k 0))))"

section \<open>Decoding helpers\<close>

text \<open>
  \<open>shuffle\<close>. The arrays \<open>pkt\<close> and \<open>index\<close> are changed in place, so the result holds
  them next to the returned code. The last component counts the executions of the two
  \<open>std::swap\<close> statements; it is not a variable of the source.
\<close>

function shuffle_loop ::
  "'p list \<Rightarrow> nat list \<Rightarrow> nat \<Rightarrow> nat \<Rightarrow> nat \<Rightarrow> error + int \<times> 'p list \<times> nat list \<times> nat" where
  "shuffle_loop pkt index k i swaps =
     (if i < k then
        (if length index \<le> i then Inl OutOfBounds
         else if index ! i \<ge> k \<or> index ! i = i then shuffle_loop pkt index k (i + 1) swaps
         else
           let c = index ! i
           in if length index \<le> c then Inl OutOfBounds
              else if index ! c = c then Inr (1, pkt, index, swaps)
              else if length pkt \<le> i \<or> length pkt \<le> c then Inl OutOfBounds
              else shuffle_loop (pkt[i := pkt ! c, c := pkt ! i])
                     (index[i := index ! c, c := index ! i]) k i (swaps + 1))
      else Inr (0, pkt, index, swaps))"
  by pat_completeness auto

termination
proof (relation "measure (\<lambda>(pkt, index, k, i, swaps).
                    card {j. j < length index \<and> index ! j \<noteq> j} + (k - i))", goal_cases)
  case 1
  show ?case by simp
next
  case (2 pkt index k i swaps)
  then show ?case by auto
next
  case (3 pkt index k i swaps c)
  let ?index' = "index[i := index ! c, c := index ! i]"
  let ?old = "{j. j < length index \<and> index ! j \<noteq> j}"
  let ?new = "{j. j < length ?index' \<and> ?index' ! j \<noteq> j}"
  from 3 have ci: "c = index ! i" "c \<noteq> i" "i < length index" "c < length index" "index ! c \<noteq> c"
    by auto
  have "c \<in> ?old" using ci by simp
  moreover have "c \<notin> ?new" using ci by simp
  moreover have "?new \<subseteq> ?old"
  proof
    fix j assume j: "j \<in> ?new"
    then have "j \<noteq> c" using ci by auto
    then show "j \<in> ?old" using j ci by (cases "j = i") auto
  qed
  ultimately have "?new \<subset> ?old" by blast
  moreover have "finite ?old" by simp
  ultimately have "card ?new < card ?old" by (rule psubset_card_mono [rotated])
  then show ?case by simp
qed

declare shuffle_loop.simps [simp del]

definition shuffle :: "'p list \<Rightarrow> nat list \<Rightarrow> nat \<Rightarrow> error + int \<times> 'p list \<times> nat list" where
  "shuffle pkt index k =
     (case shuffle_loop pkt index k 0 0 of
        Inl e \<Rightarrow> Inl e
      | Inr (r, pkt', index', swaps) \<Rightarrow> Inr (r, pkt', index'))"

text \<open>
  \<open>build_decode_matrix\<close>: the loop that fills the rows of the \<open>k\<close> by \<open>k\<close> matrix, then
  the inversion.
\<close>

function build_rows ::
  "nat \<Rightarrow> nat \<Rightarrow> byte list \<Rightarrow> nat list \<Rightarrow> nat \<Rightarrow> byte list \<Rightarrow> error + byte list" where
  "build_rows k n enc index i matrix =
     (if i < k then
        (if index ! i < k then
           build_rows k n enc index (i + 1)
             (take (i * k) matrix @ (memset (drop (i * k) matrix) 0 k)[i := 1])
         else if index ! i < n then
           build_rows k n enc index (i + 1)
             (take (i * k) matrix @ memcpy (drop (i * k) matrix) (drop (index ! i * k) enc) k)
         else Inl BadIndex)
      else Inr matrix)"
  by pat_completeness auto
termination
  by (relation "measure (\<lambda>(k, n, enc, index, i, matrix). k - i)") auto

declare build_rows.simps [simp del]

definition build_decode_matrix ::
  "nat \<Rightarrow> nat \<Rightarrow> byte list \<Rightarrow> nat list \<Rightarrow> error + byte list" where
  "build_decode_matrix k n enc index =
     (case build_rows k n enc index 0 (replicate (k * k) 0) of
        Inl e \<Rightarrow> Inl e
      | Inr matrix \<Rightarrow> invert_mat matrix k)"

section \<open>Codec\<close>

record fec_code =
  fec_k :: nat
  fec_n :: nat
  enc_matrix :: "byte list"

text \<open>
  The constructor. Its two loops \<open>for(byte* p = ..., row = 0; ...)\<close> and
  \<open>for(byte* p = ..., col = 0; ...)\<close> declare the counters \<open>row\<close> and \<open>col\<close> with the
  type \<open>byte\<close>, so the counters wrap around at 256. \<open>p\<close> is the position of the
  pointer in the vector. \<open>n - 1\<close> is a \<open>size_t\<close> subtraction.

  The first loop need not return (with \<open>k = 0\<close> and \<open>n - 1 > 255\<close> it neither writes nor
  stops), hence the result \<open>None\<close> for a run that does not return.
\<close>

partial_function (option) fill_rows ::
  "byte list \<Rightarrow> nat \<Rightarrow> nat \<Rightarrow> nat \<Rightarrow> byte \<Rightarrow> (error + byte list) option" where
  "fill_rows tmp_m k n p row =
     (if unat row < (if n = 0 then 2 ^ 64 - 1 else n - 1) then
        (if k = 0 \<or> p + k \<le> length tmp_m then
           fill_rows
             (fold (\<lambda>col m. m[p + col := GF_EXP ! ((unat row * col) mod 255)]) [0..<k] tmp_m)
             k n (p + k) (row + 1)
         else Some (Inl OutOfBounds))
      else Some (Inr tmp_m))"

declare fill_rows.simps [code]

function set_diag :: "byte list \<Rightarrow> nat \<Rightarrow> nat \<Rightarrow> byte \<Rightarrow> error + byte list" where
  "set_diag enc k p col =
     (if unat col < k then
        (if p < length enc then set_diag (enc[p := 1]) k (p + (k + 1)) (col + 1)
         else Inl OutOfBounds)
      else Inr enc)"
  by pat_completeness auto
termination
  by (relation "measure (\<lambda>(enc, k, p, col). length enc - p)") auto

declare set_diag.simps [simp del]

text \<open>
  The constructor in three parts: the matrix \<open>tmp_m\<close> of powers of field elements, the
  encoding matrix made from the inverted \<open>tmp_m\<close>, and the function itself.
  \<open>tmp_m[0] = 1\<close> writes outside the vector when \<open>n * k = 0\<close>.

  The source allocates \<open>enc_matrix(n * k)\<close> in the initialiser list, before it checks \<open>k\<close>
  and \<open>n\<close>, and \<open>tmp_m(n * k)\<close> after the checks. Every allocation is taken to succeed
  here: a failed one (\<open>std::bad_alloc\<close>) is not a result of \<open>fec_code_ctor\<close>. For
  \<open>k, n \<le> 256\<close> each vector has at most 65536 bytes. For sizes so large that the first
  allocation fails, the source throws before it reaches the checks, and what
  \<open>fec_code_ctor\<close> returns there (\<open>InvalidParameters\<close>) describes the code only from the
  checks on.
\<close>

definition fill_tmp_m :: "nat \<Rightarrow> nat \<Rightarrow> (error + byte list) option" where
  "fill_tmp_m k n =
     (let tmp_m = (replicate (n * k) 0)[0 := 1];
          tmp_m = fold (\<lambda>col m. m[col := 0]) [1..<k] tmp_m
      in fill_rows tmp_m k n k 0)"

definition build_enc_matrix :: "nat \<Rightarrow> nat \<Rightarrow> byte list \<Rightarrow> error + byte list" where
  "build_enc_matrix k n tmp_m =
     (let enc = replicate (n * k) 0;
          enc = take (k * k) enc
                @ matmul (drop (k * k) tmp_m) tmp_m (drop (k * k) enc) (n - k) k k;
          enc = memset enc 0 (k * k)
      in set_diag enc k 0 0)"

definition fec_code_ctor :: "nat \<Rightarrow> nat \<Rightarrow> (error + fec_code) option" where
  "fec_code_ctor k n =
     (if k > 256 \<or> n > 256 then Some (Inl InvalidParameters)
      else if k > n then Some (Inl InvalidParameters)
      else if n * k = 0 then Some (Inl OutOfBounds)
      else
        (case fill_tmp_m k n of
           None \<Rightarrow> None
         | Some (Inl e) \<Rightarrow> Some (Inl e)
         | Some (Inr tmp_m) \<Rightarrow>
             (case invert_vdm tmp_m k of
                Inl e \<Rightarrow> Some (Inl e)
              | Inr tmp_m \<Rightarrow>
                  (case build_enc_matrix k n tmp_m of
                     Inl e \<Rightarrow> Some (Inl e)
                   | Inr enc \<Rightarrow> Some (Inr \<lparr>fec_k = k, fec_n = n, enc_matrix = enc\<rparr>)))))"

text \<open>
  \<open>encode\<close>: \<open>fec\<close> is the output buffer, the result its new contents.
\<close>

definition encode ::
  "fec_code \<Rightarrow> byte list list \<Rightarrow> byte list \<Rightarrow> nat \<Rightarrow> nat \<Rightarrow> error + byte list" where
  "encode code src fec index sz =
     (if index \<ge> fec_n code then Inl InvalidIndex
      else if index < fec_k code then Inr (memcpy fec (src ! index) sz)
      else
        let p = drop (index * fec_k code) (enc_matrix code);
            fec = memset fec 0 sz
        in Inr (addmul_k fec src p sz (fec_k code)))"

text \<open>
  \<open>decode\<close>: \<open>pkt\<close> holds the contents of the buffers the pointers refer to (distinct
  buffers), \<open>index\<close> the index array; both are changed in place and returned. \<open>new_pkt\<close>
  has a buffer only for the rows with a parity index; the other entries are never read.
\<close>

definition decode ::
  "fec_code \<Rightarrow> byte list list \<Rightarrow> nat list \<Rightarrow> nat \<Rightarrow> error + byte list list \<times> nat list" where
  "decode code pkt index sz =
     (let k = fec_k code
      in case shuffle pkt index k of
           Inl e \<Rightarrow> Inl e
         | Inr (r, pkt, index) \<Rightarrow>
             if r \<noteq> 0 then Inl DuplicateIndex
             else
               (case build_decode_matrix k (fec_n code) (enc_matrix code) index of
                  Inl e \<Rightarrow> Inl e
                | Inr m_dec \<Rightarrow>
                    let new_pkt =
                          map (\<lambda>row.
                                 if index ! row \<ge> k
                                 then addmul_k (replicate sz 0) pkt (drop (row * k) m_dec) sz k
                                 else [])
                            [0..<k];
                        pkt = fold (\<lambda>row pkt.
                                      if index ! row \<ge> k
                                      then pkt[row := memcpy (pkt ! row) (new_pkt ! row) sz]
                                      else pkt)
                                [0..<k] pkt
                    in Inr (pkt, index)))"

section \<open>Notions used to state and prove the properties\<close>

text \<open>
  The procedure of the round-trip property: construct the codec, encode the shards at the
  indices \<open>index\<close> (each into a fresh zeroed buffer of \<open>sz\<close> bytes), decode them with
  that index vector.
\<close>

fun encode_all :: "fec_code \<Rightarrow> byte list list \<Rightarrow> nat list \<Rightarrow> nat \<Rightarrow> error + byte list list" where
  "encode_all code src [] sz = Inr []"
| "encode_all code src (i # is) sz =
     (case encode code src (replicate sz 0) i sz of
        Inl e \<Rightarrow> Inl e
      | Inr fec \<Rightarrow>
          (case encode_all code src is sz of
             Inl e \<Rightarrow> Inl e
           | Inr fecs \<Rightarrow> Inr (fec # fecs)))"

definition roundtrip ::
  "nat \<Rightarrow> nat \<Rightarrow> byte list list \<Rightarrow> nat list \<Rightarrow> nat
     \<Rightarrow> (error + byte list list \<times> nat list) option" where
  "roundtrip k n src index sz =
     (case fec_code_ctor k n of
        None \<Rightarrow> None
      | Some (Inl e) \<Rightarrow> Some (Inl e)
      | Some (Inr code) \<Rightarrow>
          (case encode_all code src index sz of
             Inl e \<Rightarrow> Some (Inl e)
           | Inr shards \<Rightarrow> Some (decode code shards index sz)))"

text \<open>The positions of the index array that do not hold their own number.\<close>

definition unfixed :: "nat list \<Rightarrow> nat set" where
  "unfixed index = {j. j < length index \<and> index ! j \<noteq> j}"

text \<open>
  The loop invariant of \<open>shuffle\<close>: every position before \<open>i\<close> holds a parity index or
  its own number.
\<close>

definition settled :: "nat \<Rightarrow> nat list \<Rightarrow> nat \<Rightarrow> bool" where
  "settled k index i \<longleftrightarrow> (\<forall>j<i. index ! j \<ge> k \<or> index ! j = j)"

text \<open>Two positions of the index array hold the same source index.\<close>

definition has_dup :: "nat \<Rightarrow> nat list \<Rightarrow> bool" where
  "has_dup k index \<longleftrightarrow> (\<exists>a<k. \<exists>b<k. a \<noteq> b \<and> index ! a = index ! b \<and> index ! a < k)"

text \<open>The positions \<open>c * (k + 1)\<close> of the diagonal, from row \<open>u\<close> on.\<close>

definition on_diag :: "nat \<Rightarrow> nat \<Rightarrow> nat \<Rightarrow> bool" where
  "on_diag k u q \<longleftrightarrow> (\<exists>c. u \<le> c \<and> c < k \<and> q = c * (k + 1))"

text \<open>The buffer \<open>dst\<close> after \<open>dst[i] ^= mul_base[src[i]]\<close> for the positions from \<open>a\<close> up to \<open>b\<close>.\<close>

definition xor_range :: "(byte \<Rightarrow> byte) \<Rightarrow> byte list \<Rightarrow> byte list \<Rightarrow> nat \<Rightarrow> nat \<Rightarrow> byte list" where
  "xor_range mul_base src dst a b =
     map (\<lambda>i. if a \<le> i \<and> i < b then (dst ! i) XOR mul_base (src ! i) else dst ! i)
       [0..<length dst]"

text \<open>
  Multiplication by the generator \<open>x\<close> (the byte 2) in GF(2^8) with the polynomial \<open>0x11D\<close>,
  and the discrete logarithm read from the table.
\<close>

definition xtime :: "byte \<Rightarrow> byte" where
  "xtime x = push_bit 1 x XOR (if bit x 7 then 0x1D else 0)"

definition gf_log :: "byte \<Rightarrow> nat" where
  "gf_log x = unat (GF_LOG ! unat x)"

text \<open>
  The product in GF(2^8) as the glossary of the spec gives it: multiplication of
  polynomials modulo \<open>0x11D\<close>, by shift and add over the bits of \<open>b\<close>.
\<close>

primrec gf256_mul_bits :: "nat \<Rightarrow> byte \<Rightarrow> byte \<Rightarrow> byte" where
  "gf256_mul_bits 0 a b = 0"
| "gf256_mul_bits (Suc n) a b = gf256_mul_bits n a b XOR (if bit b n then (xtime ^^ n) a else 0)"

definition gf256_mul :: "byte \<Rightarrow> byte \<Rightarrow> byte" where
  "gf256_mul a b = gf256_mul_bits 8 a b"

text \<open>The sum \<open>f 0 XOR ... XOR f (n - 1)\<close> in the field.\<close>

primrec xsum :: "(nat \<Rightarrow> byte) \<Rightarrow> nat \<Rightarrow> byte" where
  "xsum f 0 = 0"
| "xsum f (Suc n) = xsum f n XOR f n"

text \<open>The \<open>k\<close> by \<open>k\<close> identity matrix, row-major.\<close>

definition identity_matrix :: "nat \<Rightarrow> byte list" where
  "identity_matrix k = map (\<lambda>x. if x div k = x mod k then 1 else 0) [0..<k * k]"

text \<open>
  The transposition of \<open>a\<close> and \<open>b\<close>, and the permutation of the columns that the closing
  loop of \<open>invert_mat\<close> applies for the first \<open>c\<close> entries of \<open>indxr\<close> and \<open>indxc\<close>.
\<close>

definition swp :: "nat \<Rightarrow> nat \<Rightarrow> nat \<Rightarrow> nat" where
  "swp a b x = (if x = a then b else if x = b then a else x)"

primrec perm_upto :: "nat list \<Rightarrow> nat list \<Rightarrow> nat \<Rightarrow> nat \<Rightarrow> nat" where
  "perm_upto indxr indxc 0 j = j"
| "perm_upto indxr indxc (Suc c) j = swp (indxr ! c) (indxc ! c) (perm_upto indxr indxc c j)"

text \<open>\<open>ipiv\<close> marks every column as unused (0) or used once (1); the used ones.\<close>

definition ipiv_ok :: "nat \<Rightarrow> nat list \<Rightarrow> bool" where
  "ipiv_ok k ipiv \<longleftrightarrow> length ipiv = k \<and> (\<forall>j<k. ipiv ! j = 0 \<or> ipiv ! j = 1)"

definition pivots :: "nat \<Rightarrow> nat list \<Rightarrow> nat set" where
  "pivots k ipiv = {j. j < k \<and> ipiv ! j = 1}"

text \<open>
  Entry \<open>(i, j)\<close> of the matrix after one turn of the loop over \<open>col\<close> that found the pivot
  in row \<open>r\<close> and column \<open>p\<close>: rows \<open>r\<close> and \<open>p\<close> swapped, the pivot row scaled by the
  inverse of the pivot (with the pivot itself replaced by 1 before), and the multiples of
  the pivot row added to the other rows (whose entry in column \<open>p\<close> was cleared before).
\<close>

definition pivoted :: "nat \<Rightarrow> byte list \<Rightarrow> nat \<Rightarrow> nat \<Rightarrow> nat \<Rightarrow> nat \<Rightarrow> byte" where
  "pivoted k s r p i j =
     (let d = GF_INVERSE ! unat (s ! (r * k + p));
          prow = gf_mul_table d (if j = p then 1 else s ! (r * k + j))
      in if i = p then prow
         else (if j = p then 0 else s ! (swp r p i * k + j))
                XOR gf_mul_table (s ! (swp r p i * k + p)) prow)"

text \<open>
  The in-place matrix \<open>s\<close> stands for two matrices: \<open>Bm\<close>, the reduced original (unit
  columns where a pivot was used), and \<open>Cm\<close>, the accumulated row operations (unit columns
  where none was used). \<open>row_op\<close> is the row operation of one pivot step on a matrix \<open>X\<close>.
\<close>

definition Bm :: "nat \<Rightarrow> byte list \<Rightarrow> nat list \<Rightarrow> nat \<Rightarrow> nat \<Rightarrow> byte" where
  "Bm k s ipiv i j = (if ipiv ! j = 1 then (if i = j then 1 else 0) else s ! (i * k + j))"

definition Cm :: "nat \<Rightarrow> byte list \<Rightarrow> nat list \<Rightarrow> nat \<Rightarrow> nat \<Rightarrow> byte" where
  "Cm k s ipiv i j = (if ipiv ! j = 1 then s ! (i * k + j) else (if i = j then 1 else 0))"

definition row_op ::
  "nat \<Rightarrow> byte \<Rightarrow> (nat \<Rightarrow> byte) \<Rightarrow> (nat \<Rightarrow> nat \<Rightarrow> byte) \<Rightarrow> nat \<Rightarrow> nat \<Rightarrow> byte" where
  "row_op p d f X i j =
     (if i = p then gf_mul_table d (X p j)
      else X i j XOR gf_mul_table (f i) (gf_mul_table d (X p j)))"

text \<open>
  The invariant of the loop over \<open>col\<close> for the original matrix \<open>A\<close>: \<open>Bm\<close> is the product of
  \<open>Cm\<close>, its columns permuted by \<open>\<sigma>\<close>, with \<open>A\<close>.
\<close>

definition gj_inv :: "nat \<Rightarrow> byte list \<Rightarrow> byte list \<Rightarrow> nat list \<Rightarrow> (nat \<Rightarrow> nat) \<Rightarrow> bool" where
  "gj_inv k A s ipiv \<sigma> \<longleftrightarrow>
     length s = k * k \<and> ipiv_ok k ipiv \<and> (\<forall>l<k. \<sigma> l < k) \<and> (\<forall>j<k. \<exists>l<k. \<sigma> l = j) \<and>
     (\<forall>i<k. \<forall>j<k. Bm k s ipiv i j
        = xsum (\<lambda>l. gf_mul_table (Cm k s ipiv i (\<sigma> l)) (A ! (l * k + j))) k)"

definition loop_inv ::
  "nat \<Rightarrow> byte list \<Rightarrow> nat \<Rightarrow> byte list \<times> nat list \<times> nat list \<times> nat list \<Rightarrow> bool" where
  "loop_inv k A col st \<longleftrightarrow>
     (case st of (s, indxr, indxc, ipiv) \<Rightarrow>
        length indxr = k \<and> length indxc = k \<and> (\<forall>c<col. indxr ! c < k \<and> indxc ! c < k) \<and>
        card (pivots k ipiv) = col \<and> gj_inv k A s ipiv (perm_upto indxr indxc col))"

text \<open>
  A matrix whose rows are linearly dependent: some vector \<open>w\<close>, not zero, is mapped to zero
  by the reduced original matrix \<open>Bm\<close>.
\<close>

definition sing_inv :: "nat \<Rightarrow> byte list \<Rightarrow> nat list \<Rightarrow> bool" where
  "sing_inv k s ipiv \<longleftrightarrow>
     length s = k * k \<and> ipiv_ok k ipiv \<and>
     (\<exists>w. (\<exists>i<k. w i \<noteq> 0) \<and> (\<forall>j<k. xsum (\<lambda>i. gf_mul_table (w i) (Bm k s ipiv i j)) k = 0))"

text \<open>Two positions of the index array hold the same value, one that satisfies \<open>P\<close>.\<close>

definition dup_where :: "(nat \<Rightarrow> bool) \<Rightarrow> nat \<Rightarrow> nat list \<Rightarrow> bool" where
  "dup_where P k index \<longleftrightarrow> (\<exists>a<k. \<exists>b<k. a \<noteq> b \<and> index ! a = index ! b \<and> P (index ! a))"

section \<open>Properties of \<open>shuffle\<close>\<close>

lemma finite_unfixed: "finite (unfixed index)"
  by (simp add: unfixed_def)

lemma card_unfixed_le: "card (unfixed index) \<le> length index"
proof -
  have "unfixed index \<subseteq> {..<length index}" by (auto simp: unfixed_def)
  then have "card (unfixed index) \<le> card {..<length index}"
    by (intro card_mono) auto
  then show ?thesis by simp
qed

lemma unfixed_swap_less:
  assumes "i < length index" "c < length index" "index ! i = c" "c \<noteq> i" "index ! c \<noteq> c"
  shows "card (unfixed (index[i := index ! c, c := index ! i])) < card (unfixed index)"
proof -
  let ?new = "unfixed (index[i := index ! c, c := index ! i])"
  have "c \<in> unfixed index" using assms by (simp add: unfixed_def)
  moreover have "c \<notin> ?new" using assms by (simp add: unfixed_def)
  moreover have "?new \<subseteq> unfixed index"
  proof
    fix j assume j: "j \<in> ?new"
    then have "j \<noteq> c" using assms by (auto simp: unfixed_def)
    then show "j \<in> unfixed index" using j assms by (cases "j = i") (auto simp: unfixed_def)
  qed
  ultimately have "?new \<subset> unfixed index" by blast
  then show ?thesis by (rule psubset_card_mono [OF finite_unfixed])
qed

lemma shuffle_loop_returns:
  "length index = k \<Longrightarrow> length pkt = k \<Longrightarrow>
   \<exists>code pkt' index' s'. shuffle_loop pkt index k i swaps = Inr (code, pkt', index', s')
      \<and> (code = 0 \<or> code = 1) \<and> s' \<le> swaps + card (unfixed index)
      \<and> length index' = k \<and> length pkt' = k \<and> mset index' = mset index"
proof (induction pkt index k i swaps rule: shuffle_loop.induct)
  case (1 pkt index k i swaps)
  show ?case
  proof (cases "i < k")
    case False
    then show ?thesis using "1.prems" by (subst shuffle_loop.simps) simp
  next
    case ik: True
    show ?thesis
    proof (cases "index ! i \<ge> k \<or> index ! i = i")
      case True
      with ik "1.prems" "1.IH"(1) show ?thesis
        by (subst shuffle_loop.simps) auto
    next
      case nf: False
      let ?c = "index ! i"
      have c: "?c < k" "?c \<noteq> i" using nf by auto
      show ?thesis
      proof (cases "index ! ?c = ?c")
        case True
        with ik nf "1.prems" show ?thesis
          by (subst shuffle_loop.simps) (simp add: Let_def)
      next
        case cc: False
        let ?pkt = "pkt[i := pkt ! ?c, ?c := pkt ! i]"
        let ?index = "index[i := index ! ?c, ?c := index ! i]"
        have less: "card (unfixed ?index) < card (unfixed index)"
          using unfixed_swap_less [of i index ?c] ik c cc "1.prems" by simp
        have ms: "mset ?index = mset index"
          using mset_swap [of ?c index i] ik c "1.prems" by simp
        have "\<exists>code pkt' index' s'.
                shuffle_loop ?pkt ?index k i (swaps + 1) = Inr (code, pkt', index', s')
                \<and> (code = 0 \<or> code = 1) \<and> s' \<le> swaps + 1 + card (unfixed ?index)
                \<and> length index' = k \<and> length pkt' = k \<and> mset index' = mset ?index"
          using "1.IH"(2) [of ?c] ik nf cc c "1.prems" by simp
        moreover have "shuffle_loop pkt index k i swaps = shuffle_loop ?pkt ?index k i (swaps + 1)"
          using ik nf cc c "1.prems" by (subst shuffle_loop.simps) (simp add: Let_def)
        ultimately show ?thesis using less ms by auto
      qed
    qed
  qed
qed


lemma settled_swap:
  assumes "settled k index i" "i < k" "length index = k" "index ! i < k" "index ! i \<noteq> i"
  shows "settled k (index[i := index ! (index ! i), index ! i := index ! i]) i"
  using assms unfolding settled_def by (auto simp: nth_list_update)

lemma shuffle_loop_success:
  "length index = k \<Longrightarrow> length pkt = k \<Longrightarrow> settled k index i \<Longrightarrow> i \<le> k \<Longrightarrow>
   shuffle_loop pkt index k i swaps = Inr (0, pkt', index', s') \<Longrightarrow> settled k index' k"
proof (induction pkt index k i swaps rule: shuffle_loop.induct)
  case (1 pkt index k i swaps)
  show ?case
  proof (cases "i < k")
    case False
    with "1.prems" show ?thesis by (subst (asm) shuffle_loop.simps) auto
  next
    case ik: True
    show ?thesis
    proof (cases "index ! i \<ge> k \<or> index ! i = i")
      case True
      have "settled k index (i + 1)"
        using "1.prems"(3) True unfolding settled_def by (auto simp: less_Suc_eq)
      moreover have "shuffle_loop pkt index k (i + 1) swaps = Inr (0, pkt', index', s')"
        using "1.prems"(5) ik True "1.prems"(1) by (subst (asm) shuffle_loop.simps) auto
      ultimately show ?thesis using "1.IH"(1) ik True "1.prems" by simp
    next
      case nf: False
      let ?c = "index ! i"
      have c: "?c < k" "?c \<noteq> i" using nf by auto
      have cc: "index ! ?c \<noteq> ?c"
        using "1.prems"(5) ik nf "1.prems"(1,2) by (subst (asm) shuffle_loop.simps) (auto simp: Let_def split: if_splits)
      let ?pkt = "pkt[i := pkt ! ?c, ?c := pkt ! i]"
      let ?index = "index[i := index ! ?c, ?c := index ! i]"
      have "shuffle_loop ?pkt ?index k i (swaps + 1) = Inr (0, pkt', index', s')"
        using "1.prems"(5) ik nf cc c "1.prems"(1,2)
        by (subst (asm) shuffle_loop.simps) (simp add: Let_def)
      moreover have "settled k ?index i"
        using settled_swap [OF "1.prems"(3) ik "1.prems"(1) c] .
      ultimately show ?thesis
        using "1.IH"(2) [of ?c] ik nf cc c "1.prems" by simp
    qed
  qed
qed

lemma settled_no_dup: "settled k index k \<Longrightarrow> \<not> has_dup k index"
  unfolding settled_def has_dup_def by (metis not_le)

section \<open>Properties of the constructor\<close>

lemma unat_byte_Suc: "unat (col :: byte) < 255 \<Longrightarrow> unat (col + 1) = unat col + 1"
  by (simp add: unat_word_ariths)

lemma unat_byte_less: "unat (col :: byte) < 256"
  using unsigned_less [of col, where ?'a = nat] by simp

lemma set_diag_256: "set_diag enc 256 p col = Inl OutOfBounds"
proof (induction enc "256 :: nat" p col rule: set_diag.induct)
  case (1 enc p col)
  show ?case
    using "1.hyps" unat_byte_less [of col] by (subst set_diag.simps) simp
qed

lemma on_diag_step:
  "u < k \<Longrightarrow> on_diag k u q \<longleftrightarrow> q = u * (k + 1) \<or> on_diag k (u + 1) q"
  unfolding on_diag_def
proof
  assume "\<exists>c. u \<le> c \<and> c < k \<and> q = c * (k + 1)"
  then obtain c where c: "u \<le> c" "c < k" "q = c * (k + 1)" by blast
  show "q = u * (k + 1) \<or> (\<exists>c. u + 1 \<le> c \<and> c < k \<and> q = c * (k + 1))"
  proof (cases "c = u")
    case True then show ?thesis using c by simp
  next
    case False
    then have "u + 1 \<le> c" using c by simp
    then show ?thesis using c by blast
  qed
next
  assume u: "u < k"
  assume "q = u * (k + 1) \<or> (\<exists>c. u + 1 \<le> c \<and> c < k \<and> q = c * (k + 1))"
  then show "\<exists>c. u \<le> c \<and> c < k \<and> q = c * (k + 1)"
  proof
    assume "q = u * (k + 1)"
    then show ?thesis using u by blast
  next
    assume "\<exists>c. u + 1 \<le> c \<and> c < k \<and> q = c * (k + 1)"
    then obtain c where "u + 1 \<le> c" "c < k" "q = c * (k + 1)" by blast
    then have "u \<le> c \<and> c < k \<and> q = c * (k + 1)" by simp
    then show ?thesis by blast
  qed
qed

lemma set_diag_Inr:
  "k \<le> 255 \<Longrightarrow> unat col \<le> k \<Longrightarrow> p = unat col * (k + 1) \<Longrightarrow> set_diag enc k p col = Inr enc' \<Longrightarrow>
   length enc' = length enc \<and>
   (\<forall>q<length enc. enc' ! q = (if on_diag k (unat col) q then 1 else enc ! q))"
proof (induction enc k p col rule: set_diag.induct)
  case (1 enc k p col)
  show ?case
  proof (cases "unat col < k")
    case False
    then have "\<not> on_diag k (unat col) q" for q by (auto simp: on_diag_def)
    with False "1.prems" show ?thesis by (subst (asm) set_diag.simps) auto
  next
    case True
    then have u: "unat (col + 1) = unat col + 1" using "1.prems"(1) by (simp add: unat_byte_Suc)
    have p: "p < length enc"
      using "1.prems"(4) True by (subst (asm) set_diag.simps) (simp split: if_splits)
    have r: "set_diag (enc[p := 1]) k (p + (k + 1)) (col + 1) = Inr enc'"
      using "1.prems"(4) True p by (subst (asm) set_diag.simps) simp
    have IH: "length enc' = length (enc[p := 1]) \<and>
       (\<forall>q<length (enc[p := 1]). enc' ! q =
          (if on_diag k (unat (col + 1)) q then 1 else enc[p := 1] ! q))"
      using "1.IH" [OF True p "1.prems"(1) _ _ r] True u "1.prems"(3) by simp
    show ?thesis
    proof (intro conjI allI impI)
      show "length enc' = length enc" using IH by simp
    next
      fix q assume q: "q < length enc"
      have "enc' ! q = (if on_diag k (unat col + 1) q then 1 else enc[p := 1] ! q)"
        using IH q u by simp
      then show "enc' ! q = (if on_diag k (unat col) q then 1 else enc ! q)"
        using on_diag_step [OF True, of q] "1.prems"(3) p by (cases "q = p") simp_all
    qed
  qed
qed

lemma diag_index:
  fixes i j c k :: nat
  shows "i < k \<Longrightarrow> j < k \<Longrightarrow> c < k \<Longrightarrow> i * k + j = c * (k + 1) \<longleftrightarrow> i = c \<and> j = c"
proof
  assume a: "i < k" "j < k" "c < k" and e: "i * k + j = c * (k + 1)"
  have "c * (k + 1) = c + c * k" by simp
  with e have e': "j + i * k = c + c * k" by simp
  have "(j + i * k) div k = i" using a by simp
  moreover have "(c + c * k) div k = c" using a by simp
  ultimately have "i = c" using e' by simp
  then show "i = c \<and> j = c" using e' by simp
qed simp

lemma ctor_Inr_D:
  assumes "fec_code_ctor k n = Some (Inr code)"
  shows "\<exists>tmp_m. k \<le> 256 \<and> build_enc_matrix k n tmp_m = Inr (enc_matrix code)"
proof -
  have a: "\<not> (k > 256 \<or> n > 256)"
    using assms unfolding fec_code_ctor_def by (cases "k > 256 \<or> n > 256") simp_all
  show ?thesis using assms a unfolding fec_code_ctor_def
    apply (simp only: if_False split: if_splits option.splits sum.splits)
    apply auto
    done
qed

text \<open>
  The top block of a matrix that the constructor has returned: entry \<open>(i, j)\<close> is 1 on the
  diagonal and 0 elsewhere. That the constructor does return one is shown below
  (\<open>fec_code_ctor_succeeds\<close>).
\<close>

lemma enc_matrix_top_block:
  assumes "fec_code_ctor k n = Some (Inr code)" and "i < k" "j < k"
  shows "enc_matrix code ! (i * k + j) = (if i = j then 1 else 0)"
proof -
  from ctor_Inr_D [OF assms(1)] obtain tmp_m where k: "k \<le> 256"
    and be: "build_enc_matrix k n tmp_m = Inr (enc_matrix code)" by blast
  define enc where "enc = take (k * k) (replicate (n * k) 0)
     @ matmul (drop (k * k) tmp_m) tmp_m (drop (k * k) (replicate (n * k) 0)) (n - k) k k"
  have sd: "set_diag (memset enc 0 (k * k)) k 0 0 = Inr (enc_matrix code)"
    using be unfolding build_enc_matrix_def Let_def enc_def .
  have "k \<noteq> 256" using sd set_diag_256 by auto
  with k have k255: "k \<le> 255" by simp
  let ?e = "memset enc 0 (k * k)"
  have ij: "i * k + j < k * k"
  proof -
    have "i * k + j < i * k + k" using assms(3) by simp
    also have "\<dots> = (i + 1) * k" by simp
    also have "\<dots> \<le> k * k" using assms(2) by (intro mult_le_mono1) simp
    finally show ?thesis .
  qed
  then have len: "i * k + j < length ?e" by (simp add: memset_def)
  have z: "?e ! (i * k + j) = 0" using ij by (simp add: memset_def nth_append)
  have "enc_matrix code ! (i * k + j)
        = (if on_diag k (unat (0 :: byte)) (i * k + j) then 1 else ?e ! (i * k + j))"
    using set_diag_Inr [OF k255 _ _ sd] len by simp
  also have "on_diag k (unat (0 :: byte)) (i * k + j) \<longleftrightarrow> i = j"
    using diag_index [OF assms(2,3)] assms(2) unfolding on_diag_def by auto
  finally show ?thesis using z by simp
qed

lemma length_fold_update:
  "length (fold (\<lambda>i s. s[f i s := g i s]) xs s) = length s"
  by (induction xs arbitrary: s) simp_all

lemma fill_rows_returns:
  assumes "1 \<le> k" "n \<le> 256"
  shows "unat row < n \<Longrightarrow> p = k + unat row * k \<Longrightarrow> length tmp_m = n * k \<Longrightarrow>
         \<exists>m'. fill_rows tmp_m k n p row = Some (Inr m') \<and> length m' = n * k"
proof (induction "n - 1 - unat row" arbitrary: row p tmp_m)
  case 0
  then have "\<not> unat row < n - 1" "n \<noteq> 0" by auto
  then show ?case using 0 by (subst fill_rows.simps) simp
next
  case (Suc x)
  then have lt: "unat row < n - 1" "n \<noteq> 0" by auto
  then have u: "unat (row + 1) = unat row + 1" using assms(2) by (simp add: unat_byte_Suc)
  let ?m = "fold (\<lambda>col m. m[p + col := GF_EXP ! ((unat row * col) mod 255)]) [0..<k] tmp_m"
  have lm: "length ?m = n * k" using Suc.prems(3) by (simp add: length_fold_update)
  have "(unat row + 2) * k \<le> n * k" using lt by (intro mult_le_mono1) simp
  then have pk: "p + k \<le> length tmp_m" using Suc.prems(2,3) by (simp add: algebra_simps)
  have "\<exists>m'. fill_rows ?m k n (p + k) (row + 1) = Some (Inr m') \<and> length m' = n * k"
    using Suc.hyps(1) [of "row + 1" "p + k" ?m] Suc.hyps(2) u lt lm Suc.prems(2)
    by (simp add: algebra_simps)
  moreover have "fill_rows tmp_m k n p row = fill_rows ?m k n (p + k) (row + 1)"
    using lt pk by (subst fill_rows.simps) simp
  ultimately show ?case by simp
qed

lemma fill_tmp_m_returns:
  assumes "1 \<le> k" "k \<le> n" "n \<le> 256"
  shows "\<exists>m'. fill_tmp_m k n = Some (Inr m') \<and> length m' = n * k"
  unfolding fill_tmp_m_def Let_def
  using assms by (intro fill_rows_returns) (simp_all add: length_fold_update)

lemma length_vdm_row: "length (fst (vdm_row c p k row st)) = length (fst st)"
  by (cases st) (simp add: vdm_row_def Let_def split: prod.splits add: length_fold_update)

lemma length_fold_vdm_row: "length (fst (fold (vdm_row c p k) rows st)) = length (fst st)"
  by (induction rows arbitrary: st) (simp_all add: length_vdm_row)

lemma invert_vdm_returns:
  "1 \<le> k \<Longrightarrow> \<exists>m'. invert_vdm src k = Inr m' \<and> length m' = length src"
  by (simp add: invert_vdm_def Let_def length_fold_vdm_row)

lemma length_fold_fold_update:
  "length (fold (\<lambda>row c. fold (\<lambda>col c. c[f row col := g row col]) cols c) rows c) = length c"
  by (induction rows arbitrary: c) (simp_all add: length_fold_update)

lemma length_matmul: "length (matmul a b c n k m) = length c"
  unfolding matmul_def by (rule length_fold_fold_update)

lemma set_diag_returns:
  "k \<le> 255 \<Longrightarrow> unat col \<le> k \<Longrightarrow> p = unat col * (k + 1) \<Longrightarrow> k * k \<le> length enc \<Longrightarrow>
   \<exists>enc'. set_diag enc k p col = Inr enc'"
proof (induction enc k p col rule: set_diag.induct)
  case (1 enc k p col)
  show ?case
  proof (cases "unat col < k")
    case False
    then show ?thesis by (subst set_diag.simps) simp
  next
    case True
    then have u: "unat (col + 1) = unat col + 1" using "1.prems"(1) by (simp add: unat_byte_Suc)
    have "unat col * (k + 1) < (unat col + 1) * k" using True by simp
    also have "\<dots> \<le> k * k" using True by (intro mult_le_mono1) simp
    finally have p: "p < length enc" using "1.prems"(3,4) by simp
    have "\<exists>enc'. set_diag (enc[p := 1]) k (p + (k + 1)) (col + 1) = Inr enc'"
      using "1.IH" [OF True p "1.prems"(1)] True u "1.prems"(3,4) by simp
    then show ?thesis using True p by (subst set_diag.simps) simp
  qed
qed

lemma build_enc_matrix_returns:
  assumes "1 \<le> k" "k \<le> n" "k \<le> 255"
  shows "\<exists>enc. build_enc_matrix k n tmp_m = Inr enc \<and> length enc = n * k"
proof -
  define enc where "enc = take (k * k) (replicate (n * k) 0)
     @ matmul (drop (k * k) tmp_m) tmp_m (drop (k * k) (replicate (n * k) 0)) (n - k) k k"
  have kk: "k * k \<le> n * k" using assms(2) by (intro mult_le_mono1)
  have len: "length (memset enc 0 (k * k)) = n * k"
    using kk by (simp add: memset_def enc_def length_matmul)
  then obtain enc' where e: "set_diag (memset enc 0 (k * k)) k 0 0 = Inr enc'"
    using set_diag_returns [OF assms(3), of 0 0 "memset enc 0 (k * k)"] kk by auto
  then have "length enc' = n * k"
    using set_diag_Inr [OF assms(3) _ _ e] len by simp
  then show ?thesis using e unfolding build_enc_matrix_def Let_def enc_def by simp
qed

lemma fec_code_ctor_succeeds:
  assumes "1 \<le> k" "k \<le> n" "n \<le> 256" "k \<le> 255"
  shows "\<exists>code. fec_code_ctor k n = Some (Inr code) \<and> fec_k code = k \<and> fec_n code = n
           \<and> length (enc_matrix code) = n * k"
proof -
  obtain m1 where m1: "fill_tmp_m k n = Some (Inr m1)"
    using fill_tmp_m_returns [OF assms(1-3)] by blast
  obtain m2 where m2: "invert_vdm m1 k = Inr m2"
    using invert_vdm_returns [OF assms(1)] by blast
  obtain enc where enc: "build_enc_matrix k n m2 = Inr enc" "length enc = n * k"
    using build_enc_matrix_returns [OF assms(1,2,4)] by blast
  have "n * k \<noteq> 0" using assms by simp
  then show ?thesis using assms m1 m2 enc by (simp add: fec_code_ctor_def)
qed

lemma build_enc_matrix_256: "build_enc_matrix 256 n tmp_m = Inl OutOfBounds"
  unfolding build_enc_matrix_def Let_def by (rule set_diag_256)

text \<open>
  The error \<open>InvalidParameters\<close> comes from the two checks only. (As said at the
  definition, allocation is taken to succeed: for \<open>k\<close>, \<open>n\<close> whose \<open>n * k\<close> bytes cannot
  be allocated the source fails earlier, with \<open>std::bad_alloc\<close>.)
\<close>

lemma fec_code_ctor_invalid:
  "fec_code_ctor k n = Some (Inl InvalidParameters) \<longleftrightarrow> k > 256 \<or> n > 256 \<or> k > n"
proof
  assume "k > 256 \<or> n > 256 \<or> k > n"
  then show "fec_code_ctor k n = Some (Inl InvalidParameters)"
    by (auto simp: fec_code_ctor_def)
next
  assume r: "fec_code_ctor k n = Some (Inl InvalidParameters)"
  show "k > 256 \<or> n > 256 \<or> k > n"
  proof (rule ccontr)
    assume "\<not> (k > 256 \<or> n > 256 \<or> k > n)"
    then have kn: "k \<le> n" "n \<le> 256" by simp_all
    consider "k = 0" | "k = 256" | "1 \<le> k" "k \<le> 255" using kn by linarith
    then show False
    proof cases
      case 1
      then show ?thesis using r kn by (simp add: fec_code_ctor_def)
    next
      case 2
      then have n: "n = 256" using kn by simp
      obtain m1 where m1: "fill_tmp_m 256 256 = Some (Inr m1)"
        using fill_tmp_m_returns [of 256 256] by auto
      obtain m2 where m2: "invert_vdm m1 256 = Inr m2"
        using invert_vdm_returns [of 256 m1] by auto
      show ?thesis using r 2 n m1 m2 by (simp add: fec_code_ctor_def build_enc_matrix_256)
    next
      case 3
      then show ?thesis using fec_code_ctor_succeeds [OF 3(1) kn 3(2)] r by auto
    qed
  qed
qed

text \<open>
  C2 (construction succeeds exactly for \<open>1 \<le> k \<le> n \<le> 256\<close>, and fails with
  \<open>InvalidParameters\<close> otherwise): the constructor does not do this at \<open>k = 256\<close> and at
  \<open>k = 0\<close>. With \<open>k = n = 256\<close> the checks pass, and the closing loop, whose counter \<open>col\<close>
  is a byte and so never reaches 256, writes past the end of the encoding matrix. With
  \<open>k = 0\<close> the checks pass as well, and \<open>tmp_m[0] = 1\<close> writes into an empty vector.
  (For \<open>1 \<le> k \<le> 255\<close> and \<open>k \<le> n \<le> 256\<close> the constructor returns a codec, and, its
  vectors allocated, it fails with \<open>InvalidParameters\<close> exactly when \<open>k > 256\<close>, \<open>n > 256\<close>
  or \<open>k > n\<close>: \<open>fec_code_ctor_succeeds\<close>, \<open>fec_code_ctor_invalid\<close>.)
\<close>

theorem fec_code_ctor_bad_sizes:
  "fec_code_ctor 256 256 = Some (Inl OutOfBounds) \<and> fec_code_ctor 0 0 = Some (Inl OutOfBounds)"
proof
  obtain m1 where m1: "fill_tmp_m 256 256 = Some (Inr m1)"
    using fill_tmp_m_returns [of 256 256] by auto
  obtain m2 where m2: "invert_vdm m1 256 = Inr m2"
    using invert_vdm_returns [of 256 m1] by auto
  show "fec_code_ctor 256 256 = Some (Inl OutOfBounds)"
    using m1 m2 by (simp add: fec_code_ctor_def build_enc_matrix_256)
  show "fec_code_ctor 0 0 = Some (Inl OutOfBounds)"
    by (simp add: fec_code_ctor_def)
qed

text \<open>
  C3 (systematic generator): for every \<open>(k, n)\<close> with \<open>1 \<le> k \<le> n \<le> 256\<close> and \<open>k \<le> 255\<close>
  the constructor returns a codec for \<open>(k, n)\<close> with an \<open>n\<close> by \<open>k\<close> encoding matrix, and
  the top \<open>k\<close> by \<open>k\<close> block of that matrix is the identity: row \<open>i\<close> has 1 at column \<open>i\<close>
  and 0 elsewhere, for every \<open>i < k\<close>. At \<open>k = 256\<close> (so \<open>n = 256\<close>) no matrix is built: the
  loop that writes the diagonal counts its columns in a byte, never leaves, and writes
  past the end of the matrix, which is the defect of C1 and C2.
\<close>

theorem systematic_generator:
  assumes "1 \<le> k" "k \<le> n" "n \<le> 256"
  shows "(k \<le> 255 \<longrightarrow>
            (\<exists>code. fec_code_ctor k n = Some (Inr code)
               \<and> fec_k code = k \<and> fec_n code = n \<and> length (enc_matrix code) = n * k
               \<and> (\<forall>i<k. \<forall>j<k. enc_matrix code ! (i * k + j) = (if i = j then 1 else 0))))
       \<and> (k = 256 \<longrightarrow> fec_code_ctor k n = Some (Inl OutOfBounds))"
proof (intro conjI impI)
  assume k: "k \<le> 255"
  obtain code where c: "fec_code_ctor k n = Some (Inr code)" "fec_k code = k" "fec_n code = n"
      "length (enc_matrix code) = n * k"
    using fec_code_ctor_succeeds [OF assms k] by blast
  have "\<forall>i<k. \<forall>j<k. enc_matrix code ! (i * k + j) = (if i = j then 1 else 0)"
    using enc_matrix_top_block [OF c(1)] by blast
  with c show "\<exists>code. fec_code_ctor k n = Some (Inr code)
     \<and> fec_k code = k \<and> fec_n code = n \<and> length (enc_matrix code) = n * k
     \<and> (\<forall>i<k. \<forall>j<k. enc_matrix code ! (i * k + j) = (if i = j then 1 else 0))"
    by blast
next
  assume k: "k = 256"
  then have n: "n = 256" using assms by simp
  obtain m1 where m1: "fill_tmp_m 256 256 = Some (Inr m1)"
    using fill_tmp_m_returns [of 256 256] by auto
  obtain m2 where m2: "invert_vdm m1 256 = Inr m2"
    using invert_vdm_returns [of 256 m1] by auto
  show "fec_code_ctor k n = Some (Inl OutOfBounds)"
    using k n m1 m2 by (simp add: fec_code_ctor_def build_enc_matrix_256)
qed

theorem systematic_generator_witness:
  "(1 :: nat) \<le> 2 \<and> (2 :: nat) \<le> 4 \<and> (4 :: nat) \<le> 256 \<and> (2 :: nat) \<le> 255
   \<and> fec_code_ctor 2 4
       = Some (Inr \<lparr>fec_k = 2, fec_n = 4, enc_matrix = [1, 0, 0, 1, 3, 2, 5, 4]\<rparr>)
   \<and> [1, 0, 0, 1, 3, 2, 5, 4 :: byte] ! (1 * 2 + 1) = 1
   \<and> [1, 0, 0, 1, 3, 2, 5, 4 :: byte] ! (1 * 2 + 0) = 0
   \<and> (256 :: nat) \<le> 256 \<and> fec_code_ctor 256 256 = Some (Inl OutOfBounds)"
proof -
  let ?code = "\<lparr>fec_k = 2, fec_n = 4, enc_matrix = [1, 0, 0, 1, 3, 2, 5, 4]\<rparr>"
  have h: "fec_code_ctor 2 4 = Some (Inr ?code)" by code_simp
  have a: "(1 :: nat) \<le> 2" "(2 :: nat) \<le> 4" "(4 :: nat) \<le> 256" by simp_all
  have b: "(1 :: nat) \<le> 256" "(256 :: nat) \<le> 256" by simp_all
  from systematic_generator [OF a] h
  have t: "\<forall>i<2. \<forall>j<2. enc_matrix ?code ! (i * 2 + j) = (if i = j then 1 else 0)"
    by simp
  have i1: "(1 :: nat) < 2" and i0: "(0 :: nat) < 2" by simp_all
  have "enc_matrix ?code ! (1 * 2 + 1) = 1" "enc_matrix ?code ! (1 * 2 + 0) = 0"
    using t [rule_format, OF i1 i1] t [rule_format, OF i1 i0] by simp_all
  moreover have "fec_code_ctor 256 256 = Some (Inl OutOfBounds)"
    using systematic_generator [OF b(1) b(2) b(2)] by simp
  ultimately show ?thesis using h by simp
qed
section \<open>Properties of \<open>addmul\<close>\<close>

lemma length_xor_range [simp]: "length (xor_range mul_base src dst a b) = length dst"
  by (simp add: xor_range_def)

lemma nth_xor_range:
  "i < length dst \<Longrightarrow> xor_range mul_base src dst a b ! i =
     (if a \<le> i \<and> i < b then (dst ! i) XOR mul_base (src ! i) else dst ! i)"
  by (simp add: xor_range_def)

lemma xor_range_empty: "b \<le> a \<Longrightarrow> xor_range mul_base src dst a b = dst"
  by (rule nth_equalityI) (auto simp: nth_xor_range)

lemma length_xor_at [simp]: "length (xor_at mul_base src j dst) = length dst"
  by (simp add: xor_at_def)

lemma xor_at_range:
  "a \<le> j \<Longrightarrow> j < length dst \<Longrightarrow>
   xor_at mul_base src j (xor_range mul_base src dst a j) = xor_range mul_base src dst a (j + 1)"
  by (rule nth_equalityI) (auto simp: nth_xor_range xor_at_def nth_list_update)

lemma xor_range_compose:
  "a \<le> b \<Longrightarrow> b \<le> c \<Longrightarrow>
   xor_range mul_base src (xor_range mul_base src dst a b) b c = xor_range mul_base src dst a c"
  by (rule nth_equalityI) (auto simp: nth_xor_range)

lemma fold_xor_at:
  "a + m \<le> length dst \<Longrightarrow>
   fold (\<lambda>j. xor_at mul_base src (a + j)) [0..<m] dst = xor_range mul_base src dst a (a + m)"
proof (induction m)
  case 0
  then show ?case by (simp add: xor_range_empty)
next
  case (Suc m)
  then show ?case using xor_at_range [of a "a + m" dst mul_base src] by simp
qed

lemma upt_16: "[0, 1, 2, 3, 4, 5, 6, 7, 8, 9, 10, 11, 12, 13, 14, 15] = [0..<16::nat]"
  by (simp add: upt_rec)

lemma addmul_unrolled_spec:
  "0 \<le> d \<Longrightarrow> d \<le> lim + 15 \<Longrightarrow> lim + 15 \<le> int (length dst) \<Longrightarrow>
   \<exists>d'. addmul_unrolled mul_base src dst d lim = (xor_range mul_base src dst (nat d) (nat d'), d')
        \<and> d \<le> d' \<and> lim \<le> d' \<and> d' \<le> lim + 15"
proof (induction mul_base src dst d lim rule: addmul_unrolled.induct)
  case (1 mul_base src dst d lim)
  show ?case
  proof (cases "d < lim")
    case False
    then show ?thesis using "1.prems" by (subst addmul_unrolled.simps) (simp add: xor_range_empty)
  next
    case True
    let ?dst = "fold (\<lambda>j. xor_at mul_base src (nat d + j))
                  [0, 1, 2, 3, 4, 5, 6, 7, 8, 9, 10, 11, 12, 13, 14, 15] dst"
    have d16: "nat d + 16 \<le> length dst" using True "1.prems" by simp
    have dst: "?dst = xor_range mul_base src dst (nat d) (nat d + 16)"
      unfolding upt_16 using d16 by (rule fold_xor_at)
    obtain d' where d':
      "addmul_unrolled mul_base src ?dst (d + 16) lim
         = (xor_range mul_base src ?dst (nat (d + 16)) (nat d'), d')"
      "d + 16 \<le> d'" "lim \<le> d'" "d' \<le> lim + 15"
      using "1.IH" [OF True] True "1.prems" unfolding dst by auto
    have "xor_range mul_base src ?dst (nat (d + 16)) (nat d')
          = xor_range mul_base src dst (nat d) (nat d')"
      unfolding dst using xor_range_compose [of "nat d" "nat d + 16" "nat d'" mul_base src dst]
        d'(2) "1.prems"(1) by (simp add: nat_add_distrib)
    moreover have "addmul_unrolled mul_base src dst d lim
                   = addmul_unrolled mul_base src ?dst (d + 16) lim"
      using True by (subst addmul_unrolled.simps) simp
    ultimately show ?thesis using d' by auto
  qed
qed

lemma addmul_tail_spec:
  "0 \<le> d \<Longrightarrow> d \<le> lim \<Longrightarrow> lim \<le> int (length dst) \<Longrightarrow> a \<le> nat d \<Longrightarrow>
   addmul_tail mul_base src (xor_range mul_base src dst a (nat d)) d lim
     = xor_range mul_base src dst a (nat lim)"
proof (induction "nat (lim - d)" arbitrary: d)
  case 0
  then have "d = lim" by simp
  then show ?case by (subst addmul_tail.simps) simp
next
  case (Suc x)
  then have lt: "d < lim" by simp
  have "xor_at mul_base src (nat d) (xor_range mul_base src dst a (nat d))
        = xor_range mul_base src dst a (nat (d + 1))"
    using xor_at_range [of a "nat d" dst mul_base src] Suc.prems lt by (simp add: nat_add_distrib)
  moreover have "addmul_tail mul_base src (xor_range mul_base src dst a (nat (d + 1))) (d + 1) lim
        = xor_range mul_base src dst a (nat lim)"
    using Suc.hyps(1) [of "d + 1"] Suc.hyps(2) Suc.prems lt by simp
  ultimately show ?case using lt by (subst addmul_tail.simps) simp
qed

lemma addmul_eq_xor_range:
  assumes "0 \<le> sz" "nat sz \<le> length dst" "c \<noteq> 0"
  shows "addmul dst src c sz = xor_range (gf_mul_table c) src dst 0 (nat sz)"
proof -
  have "sz \<le> int (length dst)" using assms by simp
  then have "\<exists>d'. addmul_unrolled (gf_mul_table c) src dst 0 (sz - 16 + 1)
        = (xor_range (gf_mul_table c) src dst (nat 0) (nat d'), d')
        \<and> 0 \<le> d' \<and> sz - 16 + 1 \<le> d' \<and> d' \<le> sz - 16 + 1 + 15"
    using assms(1) by (intro addmul_unrolled_spec) simp_all
  then obtain d' where d': "addmul_unrolled (gf_mul_table c) src dst 0 (sz - 16 + 1)
        = (xor_range (gf_mul_table c) src dst 0 (nat d'), d')"
      "0 \<le> d'" "d' \<le> sz"
    by auto
  have "addmul_tail (gf_mul_table c) src (xor_range (gf_mul_table c) src dst 0 (nat d')) d' sz
        = xor_range (gf_mul_table c) src dst 0 (nat sz)"
    using addmul_tail_spec [of d' sz dst 0] d' assms by simp
  then show ?thesis using assms(3) d'(1) by (simp add: addmul_def Let_def)
qed

lemma gf_mul_table_0 [simp]: "gf_mul_table 0 x = 0" "gf_mul_table x 0 = 0"
  by (simp_all add: gf_mul_table_def)

section \<open>Arithmetic in the field: the tables\<close>

lemma table_exp_log: "list_all (\<lambda>i. GF_EXP ! i \<noteq> 0 \<and> gf_log (GF_EXP ! i) = i) [0..<255]"
  by code_simp

lemma table_log_exp:
  "list_all (\<lambda>n. gf_log (of_nat n) < 255 \<and> GF_EXP ! gf_log (of_nat n) = of_nat n) [1..<256]"
  by code_simp

lemma table_exp_step: "list_all (\<lambda>i. GF_EXP ! ((i + 1) mod 255) = xtime (GF_EXP ! i)) [0..<255]"
  by code_simp

lemma table_inverse:
  "list_all (\<lambda>n. gf_mul_table (GF_INVERSE ! n) (of_nat n) = 1) [1..<256]"
  by code_simp

lemma byte_of_nat_unat: "of_nat (unat (x :: byte)) = x"
  by simp

lemma exp_nonzero: "i < 255 \<Longrightarrow> GF_EXP ! i \<noteq> 0"
  and log_exp: "i < 255 \<Longrightarrow> gf_log (GF_EXP ! i) = i"
  using table_exp_log by (simp_all add: list_all_iff)

lemma log_less: "x \<noteq> 0 \<Longrightarrow> gf_log x < 255"
  and exp_log: "x \<noteq> 0 \<Longrightarrow> GF_EXP ! gf_log x = x"
proof -
  assume x: "x \<noteq> 0"
  then have "unat x \<noteq> 0" by (simp add: unat_eq_0)
  then have "unat x \<in> set [1..<256]" using unat_byte_less [of x] by simp
  then have "gf_log (of_nat (unat x)) < 255 \<and> GF_EXP ! gf_log (of_nat (unat x)) = of_nat (unat x)"
    using table_log_exp unfolding list_all_iff by blast
  then show "gf_log x < 255" and "GF_EXP ! gf_log x = x" by simp_all
qed

lemma exp_step: "i < 255 \<Longrightarrow> GF_EXP ! ((i + 1) mod 255) = xtime (GF_EXP ! i)"
  using table_exp_step by (simp add: list_all_iff)

lemma gf_inverse: "x \<noteq> 0 \<Longrightarrow> gf_mul_table (GF_INVERSE ! unat x) x = 1"
proof -
  assume x: "x \<noteq> 0"
  then have "unat x \<noteq> 0" by (simp add: unat_eq_0)
  then have "unat x \<in> set [1..<256]" using unat_byte_less [of x] by simp
  then have "gf_mul_table (GF_INVERSE ! unat x) (of_nat (unat x)) = 1"
    using table_inverse unfolding list_all_iff by blast
  then show ?thesis by simp
qed

lemma gf_mul_eq:
  "gf_mul_table a b = (if a = 0 \<or> b = 0 then 0 else GF_EXP ! ((gf_log a + gf_log b) mod 255))"
  by (simp add: gf_mul_table_def gf_log_def)

lemma gf_mul_commute: "gf_mul_table a b = gf_mul_table b a"
  by (auto simp: gf_mul_eq add.commute)

lemma gf_mul_zero_iff: "gf_mul_table a b = 0 \<longleftrightarrow> a = 0 \<or> b = 0"
  by (auto simp: gf_mul_eq exp_nonzero)

lemma gf_log_mul:
  "a \<noteq> 0 \<Longrightarrow> b \<noteq> 0 \<Longrightarrow> gf_log (gf_mul_table a b) = (gf_log a + gf_log b) mod 255"
  by (simp add: gf_mul_eq log_exp)

lemma gf_mul_assoc: "gf_mul_table (gf_mul_table a b) c = gf_mul_table a (gf_mul_table b c)"
proof (cases "a = 0 \<or> b = 0 \<or> c = 0")
  case True
  then show ?thesis by (auto simp: gf_mul_eq)
next
  case False
  then have nz: "a \<noteq> 0" "b \<noteq> 0" "c \<noteq> 0" by auto
  have ab: "gf_mul_table a b \<noteq> 0" and bc: "gf_mul_table b c \<noteq> 0"
    using nz by (simp_all add: gf_mul_zero_iff)
  have "gf_mul_table (gf_mul_table a b) c
        = GF_EXP ! (((gf_log a + gf_log b) mod 255 + gf_log c) mod 255)"
    using nz ab by (simp add: gf_mul_eq [of "gf_mul_table a b" c] gf_log_mul)
  also have "((gf_log a + gf_log b) mod 255 + gf_log c) mod 255
             = (gf_log a + (gf_log b + gf_log c) mod 255) mod 255"
    by (simp add: mod_simps add.assoc)
  also have "GF_EXP ! \<dots> = gf_mul_table a (gf_mul_table b c)"
    using nz bc by (simp add: gf_mul_eq [of a "gf_mul_table b c"] gf_log_mul)
  finally show ?thesis .
qed

lemma gf_log_1: "gf_log 1 = 0"
  by (simp add: gf_log_def GF_LOG_def)

lemma gf_mul_1 [simp]: "gf_mul_table 1 b = b" "gf_mul_table b 1 = b"
proof -
  show "gf_mul_table 1 b = b"
    using log_less [of b] exp_log [of b] by (cases "b = 0") (simp_all add: gf_mul_eq gf_log_1)
  then show "gf_mul_table b 1 = b" by (simp add: gf_mul_commute)
qed

lemma xtime_xor: "xtime (x XOR y) = xtime x XOR xtime y"
  by (cases "bit x 7"; cases "bit y 7") (simp_all add: xtime_def push_bit_xor bit_xor_iff ac_simps)

lemma xtime_0 [simp]: "xtime 0 = 0"
  by (simp add: xtime_def)

lemma xtime_pow_xor: "(xtime ^^ n) (x XOR y) = (xtime ^^ n) x XOR (xtime ^^ n) y"
  by (induction n) (simp_all add: xtime_xor)

lemma xtime_pow_0 [simp]: "(xtime ^^ n) 0 = 0"
  by (induction n) simp_all

lemma exp_shift:
  "i < 255 \<Longrightarrow> b \<noteq> 0 \<Longrightarrow> GF_EXP ! ((i + gf_log b) mod 255) = (xtime ^^ i) b"
proof (induction i)
  case 0
  then show ?case using log_less [of b] exp_log [of b] by simp
next
  case (Suc i)
  have "(Suc i + gf_log b) mod 255 = ((i + gf_log b) mod 255 + 1) mod 255"
    by (simp add: mod_simps)
  then have "GF_EXP ! ((Suc i + gf_log b) mod 255) = xtime (GF_EXP ! ((i + gf_log b) mod 255))"
    using exp_step [of "(i + gf_log b) mod 255"] by simp
  then show ?case using Suc by simp
qed

lemma gf_mul_xtime_pow: "a \<noteq> 0 \<Longrightarrow> gf_mul_table a b = (xtime ^^ gf_log a) b"
  using exp_shift [of "gf_log a" b] log_less [of a] by (cases "b = 0") (simp_all add: gf_mul_eq)

lemma gf_mul_xor_right: "gf_mul_table a (b XOR c) = gf_mul_table a b XOR gf_mul_table a c"
  by (cases "a = 0") (simp_all add: gf_mul_xtime_pow xtime_pow_xor)

lemma gf_mul_xor_left: "gf_mul_table (a XOR b) c = gf_mul_table a c XOR gf_mul_table b c"
  using gf_mul_xor_right [of c a b] by (simp add: gf_mul_commute)

lemma gf_inverse_nonzero: "(x :: byte) \<noteq> 0 \<Longrightarrow> GF_INVERSE ! unat x \<noteq> 0"
  using gf_inverse [of x] by (auto simp: gf_mul_eq)

section \<open>Sums over the field and matrix indices\<close>

lemma xsum_cong: "(\<And>i. i < n \<Longrightarrow> f i = g i) \<Longrightarrow> xsum f n = xsum g n"
  by (induction n) simp_all

lemma xsum_zero [simp]: "xsum (\<lambda>i. 0) n = 0"
  by (induction n) simp_all

lemma xsum_xor: "xsum (\<lambda>i. f i XOR g i) n = xsum f n XOR xsum g n"
  by (induction n) (simp_all add: ac_simps)

lemma xsum_mul_left: "gf_mul_table c (xsum f n) = xsum (\<lambda>i. gf_mul_table c (f i)) n"
  by (induction n) (simp_all add: gf_mul_xor_right)

lemma xsum_mul_right: "gf_mul_table (xsum f n) c = xsum (\<lambda>i. gf_mul_table (f i) c) n"
  by (induction n) (simp_all add: gf_mul_xor_left)

lemma xsum_delta: "xsum (\<lambda>i. if i = a then f i else 0) n = (if a < n then f a else 0)"
  by (induction n) (auto simp: less_Suc_eq)

lemma xsum_swap: "xsum (\<lambda>i. xsum (\<lambda>j. f i j) m) n = xsum (\<lambda>j. xsum (\<lambda>i. f i j) n) m"
  by (induction n) (simp_all add: xsum_xor)

lemma xsum_remove:
  "a < n \<Longrightarrow> xsum f n = f a XOR xsum (\<lambda>i. if i = a then 0 else f i) n"
proof -
  assume a: "a < n"
  have "f i = (if i = a then f i else 0) XOR (if i = a then 0 else f i)" for i by simp
  then have "xsum f n = xsum (\<lambda>i. (if i = a then f i else 0) XOR (if i = a then 0 else f i)) n"
    by (intro xsum_cong) 
  also have "\<dots> = f a XOR xsum (\<lambda>i. if i = a then 0 else f i) n"
    using a by (simp add: xsum_xor xsum_delta)
  finally show ?thesis .
qed

lemma swp_simps [simp]: "swp a b a = b" "swp a b b = a" "swp a b (swp a b x) = x"
  by (auto simp: swp_def)

lemma swp_less: "a < k \<Longrightarrow> b < k \<Longrightarrow> x < k \<Longrightarrow> swp a b x < k"
  by (simp add: swp_def)

lemma swp_other: "x \<noteq> a \<Longrightarrow> x \<noteq> b \<Longrightarrow> swp a b x = x"
  by (simp add: swp_def)

lemma swp_eq_iff: "swp a b x = swp a b y \<longleftrightarrow> x = y"
  by (metis swp_simps(3))

lemma xsum_swp:
  assumes "a < n" "b < n"
  shows "xsum (\<lambda>i. f (swp a b i)) n = xsum f n"
proof (cases "a = b")
  case True
  then show ?thesis by (intro xsum_cong) (simp add: swp_def)
next
  case False
  let ?g = "\<lambda>i. if i = a then 0 else if i = b then 0 else f i"
  have 1: "xsum f n = f a XOR (f b XOR xsum ?g n)"
  proof -
    have "xsum f n = f a XOR xsum (\<lambda>i. if i = a then 0 else f i) n"
      using assms(1) by (rule xsum_remove)
    also have "xsum (\<lambda>i. if i = a then 0 else f i) n
               = (if b = a then 0 else f b) XOR xsum (\<lambda>i. if i = b then 0 else if i = a then 0 else f i) n"
      using assms(2) by (rule xsum_remove)
    also have "xsum (\<lambda>i. if i = b then 0 else if i = a then 0 else f i) n = xsum ?g n"
      by (intro xsum_cong) simp
    finally show ?thesis using False by simp
  qed
  let ?h = "\<lambda>i. f (swp a b i)"
  have 2: "xsum ?h n = f b XOR (f a XOR xsum ?g n)"
  proof -
    have "xsum ?h n = ?h a XOR xsum (\<lambda>i. if i = a then 0 else ?h i) n"
      using assms(1) by (rule xsum_remove)
    also have "xsum (\<lambda>i. if i = a then 0 else ?h i) n
               = (if b = a then 0 else ?h b) XOR xsum (\<lambda>i. if i = b then 0 else if i = a then 0 else ?h i) n"
      using assms(2) by (rule xsum_remove)
    also have "xsum (\<lambda>i. if i = b then 0 else if i = a then 0 else ?h i) n = xsum ?g n"
      by (intro xsum_cong) (simp add: swp_def)
    finally show ?thesis using False by simp
  qed
  show ?thesis unfolding 1 2 by (simp add: ac_simps)
qed

lemma fold_xor_xsum: "fold (\<lambda>i acc. acc XOR f i) [0..<n] a = a XOR xsum f n"
  by (induction n) (simp_all add: ac_simps)

lemma idx_lt:
  fixes i j k :: nat
  shows "i < k \<Longrightarrow> j < m \<Longrightarrow> i * m + j < k * m"
proof -
  assume a: "i < k" "j < m"
  have "i * m + j < i * m + m" using a by simp
  also have "\<dots> = (i + 1) * m" by simp
  also have "\<dots> \<le> k * m" using a by (intro mult_le_mono1) simp
  finally show ?thesis .
qed

lemma idx_inj:
  fixes i j i' j' k :: nat
  shows "j < k \<Longrightarrow> j' < k \<Longrightarrow> i * k + j = i' * k + j' \<longleftrightarrow> i = i' \<and> j = j'"
proof
  assume a: "j < k" "j' < k" and e: "i * k + j = i' * k + j'"
  have "(i * k + j) div k = i" "(i' * k + j') div k = i'" using a by simp_all
  then have "i = i'" using e by simp
  then show "i = i' \<and> j = j'" using e by simp
qed simp

lemma mat_ext:
  assumes "length a = k * m" "length b = k * m"
    and "\<And>i j. i < k \<Longrightarrow> j < m \<Longrightarrow> a ! (i * m + j) = b ! (i * m + j)"
  shows "a = b"
proof (rule nth_equalityI)
  show "length a = length b" using assms by simp
next
  fix x assume x: "x < length a"
  then have m: "0 < m" using assms(1) by (cases m) auto
  have "x div m < k" using x assms(1) m by (simp add: less_mult_imp_div_less)
  moreover have "x mod m < m" using m by simp
  ultimately have "a ! (x div m * m + x mod m) = b ! (x div m * m + x mod m)" by (rule assms(3))
  then show "a ! x = b ! x" by simp
qed

lemma table_bits:
  "list_all (\<lambda>m. (of_nat m :: byte) = xsum (\<lambda>n. if bit (of_nat m :: byte) n then push_bit n 1 else 0) 8)
     [0..<256]"
  by code_simp

lemma byte_bits: "(b :: byte) = xsum (\<lambda>n. if bit b n then push_bit n 1 else 0) 8"
proof -
  have "unat b \<in> set [0..<256]" using unat_byte_less [of b] by simp
  then have "(of_nat (unat b) :: byte)
             = xsum (\<lambda>n. if bit (of_nat (unat b) :: byte) n then push_bit n 1 else 0) 8"
    using table_bits unfolding list_all_iff by blast
  then show ?thesis by simp
qed

lemma table_log_pow2: "list_all (\<lambda>n. gf_log (push_bit n 1) = n \<and> push_bit n (1 :: byte) \<noteq> 0) [0..<8]"
  by code_simp

lemma gf_mul_pow2: "n < 8 \<Longrightarrow> gf_mul_table a (2 ^ n) = (xtime ^^ n) a"
proof -
  assume "n < 8"
  then have "n \<in> set [0..<8]" by simp
  then have "gf_log (push_bit n 1) = n \<and> push_bit n (1 :: byte) \<noteq> 0"
    using table_log_pow2 unfolding list_all_iff by blast
  then have "gf_mul_table (push_bit n 1) a = (xtime ^^ n) a"
    using gf_mul_xtime_pow [of "push_bit n 1" a] by simp
  then show ?thesis by (simp add: gf_mul_commute [of a])
qed

lemma gf256_mul_bits_xsum:
  "gf256_mul_bits n a b = xsum (\<lambda>m. if bit b m then (xtime ^^ m) a else 0) n"
  by (induction n) simp_all

lemma gf_mul_table_gf256_mul: "gf_mul_table a b = gf256_mul a b"
proof -
  have "gf_mul_table a b = gf_mul_table a (xsum (\<lambda>n. if bit b n then push_bit n 1 else 0) 8)"
    using byte_bits [of b] by simp
  also have "\<dots> = xsum (\<lambda>n. gf_mul_table a (if bit b n then push_bit n 1 else 0)) 8"
    by (rule xsum_mul_left)
  also have "\<dots> = xsum (\<lambda>m. if bit b m then (xtime ^^ m) a else 0) 8"
    by (intro xsum_cong) (simp add: gf_mul_pow2)
  finally show ?thesis by (simp add: gf256_mul_def gf256_mul_bits_xsum)
qed

section \<open>The row and column operations of \<open>invert_mat\<close>\<close>

lemma replace_row_length:
  "length s = k * k \<Longrightarrow> i < k \<Longrightarrow> length row = k \<Longrightarrow>
   length (take (i * k) s @ row @ drop (i * k + k) s) = k * k"
proof -
  assume a: "length s = k * k" "i < k" "length row = k"
  have "i * k + k \<le> k * k" using idx_lt [of i k 0 k] a(2)
    by (metis Suc_eq_plus1 Suc_leI add.commute mult_Suc mult_le_mono1)
  then show ?thesis using a by simp
qed

lemma replace_row_nth:
  assumes "length s = k * k" "i < k" "length row = k" "i' < k" "j' < k"
  shows "(take (i * k) s @ row @ drop (i * k + k) s) ! (i' * k + j')
         = (if i' = i then row ! j' else s ! (i' * k + j'))"
proof -
  have ik: "i * k + k \<le> k * k"
    using assms(2) by (metis Suc_eq_plus1 Suc_leI add.commute mult_Suc mult_le_mono1)
  have lt: "length (take (i * k) s) = i * k" using assms(1) ik by simp
  consider "i' < i" | "i' = i" | "i < i'" by linarith
  then show ?thesis
  proof cases
    case 1
    then have "i' * k + j' < i * k" using idx_lt [of i' i j' k] assms(5) by simp
    then show ?thesis using 1 lt by (simp add: nth_append)
  next
    case 2
    then show ?thesis using lt assms by (simp add: nth_append)
  next
    case 3
    then have "(i + 1) * k \<le> i' * k" by (intro mult_le_mono1) simp
    then have ge: "i * k + k \<le> i' * k + j'" by simp
    define x y where "x = i' * k + j'" and "y = i * k"
    define A D where "A = take y s" and "D = drop (y + k) s"
    have xy: "y + k \<le> x" "x < length s" "length A = y"
      using ge lt idx_lt [OF assms(4,5)] assms(1) by (simp_all add: x_def y_def A_def)
    have "(A @ row @ D) ! x = (row @ D) ! (x - y)"
      using xy by (simp add: nth_append)
    also have "\<dots> = D ! (x - y - k)"
    proof -
      have "\<not> x - y < k" using xy(1) by arith
      then show ?thesis using assms(3) by (simp add: nth_append)
    qed
    also have "\<dots> = s ! x"
    proof -
      have "y + k + (x - y - k) = x" using xy(1) by arith
      then show ?thesis using xy(2) by (simp add: D_def)
    qed
    finally show ?thesis using 3 by (simp add: x_def y_def A_def D_def)
  qed
qed

lemma row_nth:
  "length s = k * k \<Longrightarrow> i < k \<Longrightarrow> j < k \<Longrightarrow> take k (drop (i * k) s) ! j = s ! (i * k + j)"
  using idx_lt [of i k j k] by simp

lemma row_length:
  "length s = k * k \<Longrightarrow> i < k \<Longrightarrow> length (take k (drop (i * k) s)) = k"
proof -
  assume a: "length s = k * k" "i < k"
  have "i * k + k \<le> k * k"
    using a(2) by (metis Suc_eq_plus1 Suc_leI add.commute mult_Suc mult_le_mono1)
  then show ?thesis using a by simp
qed

lemma swap_rows_aux:
  assumes "length src = k * k" "r < k" "p < k" "r \<noteq> p"
  shows "m \<le> k \<Longrightarrow>
    length (fold (\<lambda>i s. s[r * k + i := s ! (p * k + i), p * k + i := s ! (r * k + i)]) [0..<m] src) = k * k
    \<and> (\<forall>i<k. \<forall>j<k.
         fold (\<lambda>i s. s[r * k + i := s ! (p * k + i), p * k + i := s ! (r * k + i)]) [0..<m] src ! (i * k + j)
         = (if j < m then src ! (swp r p i * k + j) else src ! (i * k + j)))"
proof (induction m)
  case 0
  then show ?case using assms by simp
next
  case (Suc m)
  let ?f = "\<lambda>i s. s[r * k + i := s ! (p * k + i), p * k + i := s ! (r * k + i)]"
  let ?s = "fold ?f [0..<m] src"
  have IH: "length ?s = k * k"
    "\<And>i j. i < k \<Longrightarrow> j < k \<Longrightarrow> ?s ! (i * k + j) = (if j < m then src ! (swp r p i * k + j) else src ! (i * k + j))"
    using Suc by simp_all
  have m: "m < k" using Suc.prems by simp
  have st: "fold ?f [0..<Suc m] src = ?s[r * k + m := ?s ! (p * k + m), p * k + m := ?s ! (r * k + m)]"
    by simp
  show ?case unfolding st
  proof (intro conjI allI impI)
    show "length (?s[r * k + m := ?s ! (p * k + m), p * k + m := ?s ! (r * k + m)]) = k * k"
      using IH(1) by simp
  next
    fix i j assume ij: "i < k" "j < k"
    have b1: "r * k + m < length ?s" "p * k + m < length ?s"
      using IH(1) idx_lt [OF assms(2) m] idx_lt [OF assms(3) m] by simp_all
    show "?s[r * k + m := ?s ! (p * k + m), p * k + m := ?s ! (r * k + m)] ! (i * k + j)
          = (if j < Suc m then src ! (swp r p i * k + j) else src ! (i * k + j))"
      using ij m b1 assms(2,3,4) IH(2) [OF ij] IH(2) [OF assms(2) m] IH(2) [OF assms(3) m]
      by (auto simp: nth_list_update idx_inj swp_def less_Suc_eq)
  qed
qed

lemma swap_rows_nth:
  assumes "length src = k * k" "r < k" "p < k" "r \<noteq> p" "i < k" "j < k"
  shows "swap_rows src k r p ! (i * k + j) = src ! (swp r p i * k + j)"
  using swap_rows_aux [OF assms(1-4), of k] assms(5,6) by (simp add: swap_rows_def)

lemma swap_rows_length:
  assumes "length src = k * k" "r < k" "p < k" "r \<noteq> p"
  shows "length (swap_rows src k r p) = k * k"
  using swap_rows_aux [OF assms(1-4), of k] by (simp add: swap_rows_def)

lemma swap_cols_aux:
  assumes "length src = k * k" "a < k" "b < k" "a \<noteq> b"
  shows "m \<le> k \<Longrightarrow>
    length (fold (\<lambda>row s. s[row * k + a := s ! (row * k + b), row * k + b := s ! (row * k + a)]) [0..<m] src) = k * k
    \<and> (\<forall>i<k. \<forall>j<k.
         fold (\<lambda>row s. s[row * k + a := s ! (row * k + b), row * k + b := s ! (row * k + a)]) [0..<m] src ! (i * k + j)
         = (if i < m then src ! (i * k + swp a b j) else src ! (i * k + j)))"
proof (induction m)
  case 0
  then show ?case using assms by simp
next
  case (Suc m)
  let ?f = "\<lambda>row s. s[row * k + a := s ! (row * k + b), row * k + b := s ! (row * k + a)]"
  let ?s = "fold ?f [0..<m] src"
  have IH: "length ?s = k * k"
    "\<And>i j. i < k \<Longrightarrow> j < k \<Longrightarrow> ?s ! (i * k + j) = (if i < m then src ! (i * k + swp a b j) else src ! (i * k + j))"
    using Suc by simp_all
  have m: "m < k" using Suc.prems by simp
  have st: "fold ?f [0..<Suc m] src = ?s[m * k + a := ?s ! (m * k + b), m * k + b := ?s ! (m * k + a)]"
    by simp
  show ?case unfolding st
  proof (intro conjI allI impI)
    show "length (?s[m * k + a := ?s ! (m * k + b), m * k + b := ?s ! (m * k + a)]) = k * k"
      using IH(1) by simp
  next
    fix i j assume ij: "i < k" "j < k"
    have b1: "m * k + a < length ?s" "m * k + b < length ?s"
      using IH(1) idx_lt [OF m assms(2)] idx_lt [OF m assms(3)] by simp_all
    show "?s[m * k + a := ?s ! (m * k + b), m * k + b := ?s ! (m * k + a)] ! (i * k + j)
          = (if i < Suc m then src ! (i * k + swp a b j) else src ! (i * k + j))"
      using ij m b1 assms(2,3,4) IH(2) [OF ij] IH(2) [OF m assms(2)] IH(2) [OF m assms(3)]
      by (auto simp: nth_list_update idx_inj swp_def less_Suc_eq)
  qed
qed

lemma swap_cols_nth:
  assumes "length src = k * k" "a < k" "b < k" "a \<noteq> b" "i < k" "j < k"
  shows "swap_cols src k a b ! (i * k + j) = src ! (i * k + swp a b j)"
  using swap_cols_aux [OF assms(1-4), of k] assms(5,6) by (simp add: swap_cols_def)

lemma swap_cols_length:
  assumes "length src = k * k" "a < k" "b < k" "a \<noteq> b"
  shows "length (swap_cols src k a b) = k * k"
  using swap_cols_aux [OF assms(1-4), of k] by (simp add: swap_cols_def)

lemma scale_row_aux:
  assumes "length src = k * k" "p < k"
  shows "m \<le> k \<Longrightarrow>
    length (fold (\<lambda>i s. s[p * k + i := gf_mul_table c (s ! (p * k + i))]) [0..<m] src) = k * k
    \<and> (\<forall>i<k. \<forall>j<k.
         fold (\<lambda>i s. s[p * k + i := gf_mul_table c (s ! (p * k + i))]) [0..<m] src ! (i * k + j)
         = (if i = p \<and> j < m then gf_mul_table c (src ! (p * k + j)) else src ! (i * k + j)))"
proof (induction m)
  case 0
  then show ?case using assms by simp
next
  case (Suc m)
  let ?f = "\<lambda>i s. s[p * k + i := gf_mul_table c (s ! (p * k + i))]"
  let ?s = "fold ?f [0..<m] src"
  have IH: "length ?s = k * k"
    "\<And>i j. i < k \<Longrightarrow> j < k \<Longrightarrow> ?s ! (i * k + j) = (if i = p \<and> j < m then gf_mul_table c (src ! (p * k + j)) else src ! (i * k + j))"
    using Suc by simp_all
  have m: "m < k" using Suc.prems by simp
  have st: "fold ?f [0..<Suc m] src = ?s[p * k + m := gf_mul_table c (?s ! (p * k + m))]"
    by simp
  show ?case unfolding st
  proof (intro conjI allI impI)
    show "length (?s[p * k + m := gf_mul_table c (?s ! (p * k + m))]) = k * k"
      using IH(1) by simp
  next
    fix i j assume ij: "i < k" "j < k"
    have b1: "p * k + m < length ?s"
      using IH(1) idx_lt [OF assms(2) m] by simp
    show "?s[p * k + m := gf_mul_table c (?s ! (p * k + m))] ! (i * k + j)
          = (if i = p \<and> j < Suc m then gf_mul_table c (src ! (p * k + j)) else src ! (i * k + j))"
      using ij m b1 assms(2) IH(2) [OF ij] IH(2) [OF assms(2) m]
      by (auto simp: nth_list_update idx_inj less_Suc_eq)
  qed
qed

lemma scale_row_nth:
  assumes "length src = k * k" "p < k" "i < k" "j < k"
  shows "scale_row src k p c ! (i * k + j)
         = (if i = p then gf_mul_table c (src ! (p * k + j)) else src ! (i * k + j))"
  using scale_row_aux [OF assms(1,2), of k c] assms(3,4) by (simp add: scale_row_def)

lemma scale_row_length:
  assumes "length src = k * k" "p < k"
  shows "length (scale_row src k p c) = k * k"
  using scale_row_aux [OF assms(1,2), of k c] by (simp add: scale_row_def)

lemma addmul_nth:
  assumes "length dst = k" "j < k"
  shows "addmul dst src c (int k) ! j = (dst ! j) XOR gf_mul_table c (src ! j)"
proof (cases "c = 0")
  case True
  then show ?thesis by (simp add: addmul_def)
next
  case False
  then show ?thesis using addmul_eq_xor_range [of "int k" dst c src] assms
    by (simp add: nth_xor_range)
qed

lemma addmul_length:
  assumes "length dst = k"
  shows "length (addmul dst src c (int k)) = k"
proof (cases "c = 0")
  case True
  then show ?thesis using assms by (simp add: addmul_def)
next
  case False
  then show ?thesis using addmul_eq_xor_range [of "int k" dst c src] assms by simp
qed

lemma eliminate_fold: "eliminate src k p = fold (elim_row k p) [0..<k] src"
  by (simp add: eliminate_def)

lemma elim_row_spec:
  assumes "length s = k * k" "p < k" "i < k"
  shows "length (elim_row k p i s) = k * k"
    and "\<And>i' j'. i' < k \<Longrightarrow> j' < k \<Longrightarrow> elim_row k p i s ! (i' * k + j')
         = (if i' = i \<and> i \<noteq> p
            then (if j' = p then 0 else s ! (i * k + j')) XOR gf_mul_table (s ! (i * k + p)) (s ! (p * k + j'))
            else s ! (i' * k + j'))"
proof -
  let ?s1 = "s[i * k + p := 0]"
  let ?row = "addmul (take k (drop (i * k) ?s1)) (take k (drop (p * k) ?s1)) (s ! (i * k + p)) (int k)"
  have l1: "length ?s1 = k * k" using assms(1) by simp
  have lrow: "length ?row = k"
    by (intro addmul_length row_length [OF l1 assms(3)])
  show "length (elim_row k p i s) = k * k"
    using replace_row_length [OF l1 assms(3) lrow] assms(1) by (simp add: elim_row_def Let_def)
  fix i' j' assume ij: "i' < k" "j' < k"
  show "elim_row k p i s ! (i' * k + j')
         = (if i' = i \<and> i \<noteq> p
            then (if j' = p then 0 else s ! (i * k + j')) XOR gf_mul_table (s ! (i * k + p)) (s ! (p * k + j'))
            else s ! (i' * k + j'))"
  proof (cases "i = p")
    case True
    then show ?thesis by (simp add: elim_row_def)
  next
    case False
    have ip: "i * k + p < length s" using idx_lt [OF assms(3,2)] assms(1) by simp
    have e: "elim_row k p i s = take (i * k) ?s1 @ ?row @ drop (i * k + k) ?s1"
      using False by (simp add: elim_row_def Let_def)
    have rn: "?row ! j' = (take k (drop (i * k) ?s1) ! j')
                XOR gf_mul_table (s ! (i * k + p)) (take k (drop (p * k) ?s1) ! j')"
      by (intro addmul_nth row_length [OF l1 assms(3)] ij(2))
    have r1: "take k (drop (i * k) ?s1) ! j' = (if j' = p then 0 else s ! (i * k + j'))"
      using row_nth [OF l1 assms(3) ij(2)] ip ij(2) assms(2)
      by (simp add: nth_list_update idx_inj)
    have r2: "take k (drop (p * k) ?s1) ! j' = s ! (p * k + j')"
      using row_nth [OF l1 assms(2) ij(2)] ip ij(2) assms(2) False
      by (simp add: nth_list_update idx_inj)
    have other: "?s1 ! (i' * k + j') = s ! (i' * k + j')" if "i' \<noteq> i"
      using that ij(2) assms(2) by (simp add: nth_list_update idx_inj)
    show ?thesis
      unfolding e using replace_row_nth [OF l1 assms(3) lrow ij] rn r1 r2 other False by simp
  qed
qed

lemma eliminate_aux:
  assumes "length src = k * k" "p < k"
  shows "m \<le> k \<Longrightarrow>
    length (fold (elim_row k p) [0..<m] src) = k * k
    \<and> (\<forall>i<k. \<forall>j<k. fold (elim_row k p) [0..<m] src ! (i * k + j)
          = (if i < m \<and> i \<noteq> p
             then (if j = p then 0 else src ! (i * k + j))
                    XOR gf_mul_table (src ! (i * k + p)) (src ! (p * k + j))
             else src ! (i * k + j)))"
proof (induction m)
  case 0
  then show ?case using assms by simp
next
  case (Suc m)
  let ?s = "fold (elim_row k p) [0..<m] src"
  have IH: "length ?s = k * k"
    "\<And>i j. i < k \<Longrightarrow> j < k \<Longrightarrow> ?s ! (i * k + j)
          = (if i < m \<and> i \<noteq> p
             then (if j = p then 0 else src ! (i * k + j))
                    XOR gf_mul_table (src ! (i * k + p)) (src ! (p * k + j))
             else src ! (i * k + j))"
    using Suc by simp_all
  have m: "m < k" using Suc.prems by simp
  have st: "fold (elim_row k p) [0..<Suc m] src = elim_row k p m ?s" by simp
  show ?case unfolding st
  proof (intro conjI allI impI)
    show "length (elim_row k p m ?s) = k * k" by (rule elim_row_spec(1) [OF IH(1) assms(2) m])
  next
    fix i j assume ij: "i < k" "j < k"
    show "elim_row k p m ?s ! (i * k + j)
          = (if i < Suc m \<and> i \<noteq> p
             then (if j = p then 0 else src ! (i * k + j))
                    XOR gf_mul_table (src ! (i * k + p)) (src ! (p * k + j))
             else src ! (i * k + j))"
      unfolding elim_row_spec(2) [OF IH(1) assms(2) m ij]
      using IH(2) [OF ij] IH(2) [OF m ij(2)] IH(2) [OF m assms(2)] IH(2) [OF assms(2) ij(2)] m
      by (auto simp: less_Suc_eq)
  qed
qed

lemma eliminate_nth:
  assumes "length src = k * k" "p < k" "i < k" "j < k"
  shows "eliminate src k p ! (i * k + j)
         = (if i \<noteq> p
            then (if j = p then 0 else src ! (i * k + j))
                   XOR gf_mul_table (src ! (i * k + p)) (src ! (p * k + j))
            else src ! (i * k + j))"
  using eliminate_aux [OF assms(1,2), of k] assms(3,4) by (simp add: eliminate_fold)

lemma eliminate_length:
  assumes "length src = k * k" "p < k"
  shows "length (eliminate src k p) = k * k"
  using eliminate_aux [OF assms(1,2), of k] by (simp add: eliminate_fold)

lemma fill_row_aux:
  assumes "length c = n * m" "row < n"
  shows "m' \<le> m \<Longrightarrow>
    length (fold (\<lambda>col c. c[row * m + col := v row col]) [0..<m'] c) = n * m
    \<and> (\<forall>i<n. \<forall>j<m. fold (\<lambda>col c. c[row * m + col := v row col]) [0..<m'] c ! (i * m + j)
          = (if i = row \<and> j < m' then v row j else c ! (i * m + j)))"
proof (induction m')
  case 0
  then show ?case using assms by simp
next
  case (Suc m')
  let ?s = "fold (\<lambda>col c. c[row * m + col := v row col]) [0..<m'] c"
  have IH: "length ?s = n * m"
    "\<And>i j. i < n \<Longrightarrow> j < m \<Longrightarrow> ?s ! (i * m + j) = (if i = row \<and> j < m' then v row j else c ! (i * m + j))"
    using Suc by simp_all
  have m': "m' < m" using Suc.prems by simp
  have b: "row * m + m' < length ?s" using IH(1) idx_lt [OF assms(2) m'] by simp
  show ?case
    using IH b m' by (auto simp: nth_list_update idx_inj less_Suc_eq)
qed

lemma fill_all_aux:
  assumes "length c = n * m"
  shows "n' \<le> n \<Longrightarrow>
    length (fold (\<lambda>row c. fold (\<lambda>col c. c[row * m + col := v row col]) [0..<m] c) [0..<n'] c) = n * m
    \<and> (\<forall>i<n. \<forall>j<m.
          fold (\<lambda>row c. fold (\<lambda>col c. c[row * m + col := v row col]) [0..<m] c) [0..<n'] c ! (i * m + j)
          = (if i < n' then v i j else c ! (i * m + j)))"
proof (induction n')
  case 0
  then show ?case using assms by simp
next
  case (Suc n')
  let ?s = "fold (\<lambda>row c. fold (\<lambda>col c. c[row * m + col := v row col]) [0..<m] c) [0..<n'] c"
  have IH: "length ?s = n * m"
    "\<And>i j. i < n \<Longrightarrow> j < m \<Longrightarrow> ?s ! (i * m + j) = (if i < n' then v i j else c ! (i * m + j))"
    using Suc by simp_all
  have n': "n' < n" using Suc.prems by simp
  show ?case
    using fill_row_aux [OF IH(1) n', of m v] IH(2) by (auto simp: less_Suc_eq)
qed

lemma matmul_acc_xsum:
  "matmul_acc a b k m row col = xsum (\<lambda>i. gf_mul_table (a ! (row * k + i)) (b ! (i * m + col))) k"
  unfolding matmul_acc_def by (simp add: fold_xor_xsum add.commute)

lemma matmul_nth:
  assumes "length c = n * m" "row < n" "col < m"
  shows "matmul a b c n k m ! (row * m + col)
         = xsum (\<lambda>i. gf_mul_table (a ! (row * k + i)) (b ! (i * m + col))) k"
  using fill_all_aux [OF assms(1), of n "matmul_acc a b k m"] assms(2,3)
  by (simp add: matmul_def matmul_acc_xsum)

lemma perm_upto_less:
  "(\<forall>c<m. indxr ! c < k \<and> indxc ! c < k) \<Longrightarrow> j < k \<Longrightarrow> perm_upto indxr indxc m j < k"
  by (induction m) (simp_all add: swp_less)

lemma unscramble_aux:
  "length src = k * k \<Longrightarrow> m \<le> k \<Longrightarrow> (\<forall>c<m. indxr ! c < k \<and> indxc ! c < k) \<Longrightarrow>
   length (fold (\<lambda>col s.
             if indxr ! col \<ge> k then s
             else if indxc ! col \<ge> k then s
             else if indxr ! col \<noteq> indxc ! col then swap_cols s k (indxr ! col) (indxc ! col)
             else s) (rev [0..<m]) src) = k * k
   \<and> (\<forall>i<k. \<forall>j<k.
        fold (\<lambda>col s.
             if indxr ! col \<ge> k then s
             else if indxc ! col \<ge> k then s
             else if indxr ! col \<noteq> indxc ! col then swap_cols s k (indxr ! col) (indxc ! col)
             else s) (rev [0..<m]) src ! (i * k + j)
        = src ! (i * k + perm_upto indxr indxc m j))"
proof (induction m arbitrary: src)
  case 0
  then show ?case by simp
next
  case (Suc m)
  let ?f = "\<lambda>col s.
             if indxr ! col \<ge> k then s
             else if indxc ! col \<ge> k then s
             else if indxr ! col \<noteq> indxc ! col then swap_cols s k (indxr ! col) (indxc ! col)
             else s"
  let ?a = "indxr ! m" and ?b = "indxc ! m"
  have ab: "?a < k" "?b < k" using Suc.prems(3) by simp_all
  have l1: "length (?f m src) = k * k"
    using Suc.prems(1) ab swap_cols_length [of src k ?a ?b] by simp
  have n1: "?f m src ! (i * k + j) = src ! (i * k + swp ?a ?b j)" if "i < k" "j < k" for i j
    using that ab Suc.prems(1) swap_cols_nth [of src k ?a ?b i j] by (simp add: swp_def)
  have IH: "length (fold ?f (rev [0..<m]) (?f m src)) = k * k"
    "\<And>i j. i < k \<Longrightarrow> j < k \<Longrightarrow>
       fold ?f (rev [0..<m]) (?f m src) ! (i * k + j) = ?f m src ! (i * k + perm_upto indxr indxc m j)"
    using Suc.IH [OF l1] Suc.prems(2,3) by simp_all
  have pl: "perm_upto indxr indxc m j < k" if "j < k" for j
    using perm_upto_less [of m indxr k indxc j] Suc.prems(3) that by simp
  have st: "fold ?f (rev [0..<Suc m]) src = fold ?f (rev [0..<m]) (?f m src)" by simp
  show ?case unfolding st using IH n1 pl by simp
qed

lemma unscramble_nth:
  assumes "length src = k * k" "\<forall>c<k. indxr ! c < k \<and> indxc ! c < k" "i < k" "j < k"
  shows "unscramble src indxr indxc k ! (i * k + j) = src ! (i * k + perm_upto indxr indxc k j)"
  using unscramble_aux [OF assms(1) le_refl assms(2)] assms(3,4) by (simp add: unscramble_def)

lemma unscramble_length:
  assumes "length src = k * k" "\<forall>c<k. indxr ! c < k \<and> indxc ! c < k"
  shows "length (unscramble src indxr indxc k) = k * k"
  using unscramble_aux [OF assms(1) le_refl assms(2)] by (simp add: unscramble_def)

section \<open>The pivot search and the pivot step\<close>

lemma scan_ix_Some:
  "scan_ix src ipiv k row ix = Inr (Some ix') \<Longrightarrow>
   ix \<le> ix' \<and> ix' < k \<and> ipiv ! ix' = 0 \<and> src ! (row * k + ix') \<noteq> 0"
proof (induction src ipiv k row ix rule: scan_ix.induct)
  case (1 src ipiv k row ix)
  from "1.prems" show ?case
    by (subst (asm) scan_ix.simps) (use "1.IH" in \<open>auto split: if_splits\<close>)
qed

lemma scan_ix_None:
  "scan_ix src ipiv k row ix = Inr None \<Longrightarrow> ix \<le> ix' \<Longrightarrow> ix' < k \<Longrightarrow>
   ipiv ! ix' = 0 \<Longrightarrow> src ! (row * k + ix') = 0"
proof (induction src ipiv k row ix rule: scan_ix.induct)
  case (1 src ipiv k row ix)
  have ix: "ix < k" using "1.prems"(2,3) by simp
  show ?case
  proof (cases "ix' = ix")
    case True
    then show ?thesis using "1.prems" ix
      by (subst (asm) scan_ix.simps) (auto split: if_splits)
  next
    case False
    then have le: "ix + 1 \<le> ix'" using "1.prems"(2) by simp
    show ?thesis
    proof (cases "ipiv ! ix = 0")
      case True
      then have z: "src ! (row * k + ix) = 0" and r: "scan_ix src ipiv k row (ix + 1) = Inr None"
        using "1.prems"(1) ix by (subst (asm) scan_ix.simps; simp split: if_splits)+
      then show ?thesis using "1.IH"(1) [OF ix True _ r le "1.prems"(3,4)] by simp
    next
      case nz: False
      then have g: "\<not> ipiv ! ix > 1" and r: "scan_ix src ipiv k row (ix + 1) = Inr None"
        using "1.prems"(1) ix by (subst (asm) scan_ix.simps; simp split: if_splits)+
      then show ?thesis using "1.IH"(2) [OF ix nz g r le "1.prems"(3,4)] by simp
    qed
  qed
qed

lemma scan_ix_Inl:
  "\<forall>j<k. ipiv ! j = 0 \<or> ipiv ! j = 1 \<Longrightarrow> scan_ix src ipiv k row ix \<noteq> Inl e"
proof (induction src ipiv k row ix rule: scan_ix.induct)
  case (1 src ipiv k row ix)
  show ?case
  proof (cases "ix < k")
    case False
    then show ?thesis by (subst scan_ix.simps) simp
  next
    case True
    then have "ipiv ! ix = 0 \<or> ipiv ! ix = 1" using "1.prems" by simp
    then show ?thesis using True "1.IH" "1.prems"
      by (subst scan_ix.simps) auto
  qed
qed

lemma scan_row_Inr:
  "scan_row src ipiv k row = Inr (r, p) \<Longrightarrow>
   r < k \<and> p < k \<and> ipiv ! r \<noteq> 1 \<and> ipiv ! p = 0 \<and> src ! (r * k + p) \<noteq> 0"
proof (induction src ipiv k row rule: scan_row.induct)
  case (1 src ipiv k row)
  from "1.prems" show ?case
    by (subst (asm) scan_row.simps)
      (use "1.IH" scan_ix_Some in \<open>fastforce split: if_splits sum.splits option.splits\<close>)
qed

lemma scan_row_Inl:
  "\<forall>j<k. ipiv ! j = 0 \<or> ipiv ! j = 1 \<Longrightarrow> scan_row src ipiv k row = Inl e \<Longrightarrow>
   e = SingularMatrix \<and>
   (\<forall>r p. row \<le> r \<and> r < k \<and> p < k \<and> ipiv ! r = 0 \<and> ipiv ! p = 0 \<longrightarrow> src ! (r * k + p) = 0)"
proof (induction src ipiv k row rule: scan_row.induct)
  case (1 src ipiv k row)
  show ?case
  proof (cases "row < k")
    case False
    then show ?thesis using "1.prems"(2) by (subst (asm) scan_row.simps) auto
  next
    case rk: True
    show ?thesis
    proof (cases "ipiv ! row \<noteq> 1")
      case True
      have "scan_ix src ipiv k row 0 \<noteq> Inl e'" for e'
        using scan_ix_Inl [OF "1.prems"(1)] .
      moreover have "scan_ix src ipiv k row 0 \<noteq> Inr (Some ix)" for ix
        using "1.prems"(2) rk True by (subst (asm) scan_row.simps) auto
      ultimately have none: "scan_ix src ipiv k row 0 = Inr None"
        by (metis not_Some_eq sum.exhaust_sel sum.collapse(1))
      then have r: "scan_row src ipiv k (row + 1) = Inl e"
        using "1.prems"(2) rk True by (subst (asm) scan_row.simps) simp
      have IH: "e = SingularMatrix \<and>
         (\<forall>r p. row + 1 \<le> r \<and> r < k \<and> p < k \<and> ipiv ! r = 0 \<and> ipiv ! p = 0 \<longrightarrow> src ! (r * k + p) = 0)"
        using "1.IH"(1) [OF rk True none refl "1.prems"(1) r] .
      have this_row: "src ! (row * k + p) = 0" if "p < k" "ipiv ! p = 0" for p
        using scan_ix_None [OF none _ that(1) that(2)] by simp
      show ?thesis
      proof (intro conjI allI impI)
        show "e = SingularMatrix" using IH by simp
      next
        fix r p assume a: "row \<le> r \<and> r < k \<and> p < k \<and> ipiv ! r = 0 \<and> ipiv ! p = 0"
        show "src ! (r * k + p) = 0"
        proof (cases "r = row")
          case True
          then show ?thesis using this_row a by simp
        next
          case False
          then have "row + 1 \<le> r" using a by simp
          then show ?thesis using IH a by blast
        qed
      qed
    next
      case False
      then have r: "scan_row src ipiv k (row + 1) = Inl e"
        using "1.prems"(2) rk by (subst (asm) scan_row.simps) simp
      have IH: "e = SingularMatrix \<and>
         (\<forall>r p. row + 1 \<le> r \<and> r < k \<and> p < k \<and> ipiv ! r = 0 \<and> ipiv ! p = 0 \<longrightarrow> src ! (r * k + p) = 0)"
        using "1.IH"(2) [OF rk False "1.prems"(1) r] .
      show ?thesis
      proof (intro conjI allI impI)
        show "e = SingularMatrix" using IH by simp
      next
        fix r p assume a: "row \<le> r \<and> r < k \<and> p < k \<and> ipiv ! r = 0 \<and> ipiv ! p = 0"
        then have "r \<noteq> row" using False by auto
        then have "row + 1 \<le> r" using a by simp
        then show "src ! (r * k + p) = 0" using IH a by blast
      qed
    qed
  qed
qed

lemma find_piv_Inr:
  assumes "ipiv_ok k ipiv" "col < k" "find_piv src ipiv k col = Inr (r, p)"
  shows "r < k \<and> p < k \<and> ipiv ! r = 0 \<and> ipiv ! p = 0 \<and> src ! (r * k + p) \<noteq> 0"
proof (cases "ipiv ! col \<noteq> 1 \<and> src ! (col * k + col) \<noteq> 0")
  case True
  then have "r = col" "p = col" using assms(3) by (simp_all add: find_piv_def)
  then show ?thesis using True assms(1,2) unfolding ipiv_ok_def by auto
next
  case False
  then have "scan_row src ipiv k 0 = Inr (r, p)" using assms(3) by (auto simp: find_piv_def)
  from scan_row_Inr [OF this] show ?thesis using assms(1) unfolding ipiv_ok_def by auto
qed

lemma find_piv_Inl:
  assumes "ipiv_ok k ipiv" "find_piv src ipiv k col = Inl e"
  shows "e = SingularMatrix"
    and "\<And>r p. r < k \<Longrightarrow> p < k \<Longrightarrow> ipiv ! r = 0 \<Longrightarrow> ipiv ! p = 0 \<Longrightarrow> src ! (r * k + p) = 0"
proof -
  have s: "scan_row src ipiv k 0 = Inl e"
    using assms(2) by (auto simp: find_piv_def split: if_splits)
  have ok: "\<forall>j<k. ipiv ! j = 0 \<or> ipiv ! j = 1" using assms(1) by (simp add: ipiv_ok_def)
  from scan_row_Inl [OF ok s] show "e = SingularMatrix" by simp
  fix r p assume "r < k" "p < k" "ipiv ! r = 0" "ipiv ! p = 0"
  then show "src ! (r * k + p) = 0" using scan_row_Inl [OF ok s] by simp
qed

lemma gf_inverse_1: "GF_INVERSE ! Suc 0 = 1"
  by (simp add: GF_INVERSE_def)

lemma id_row_nth:
  "p < k \<Longrightarrow> j < k \<Longrightarrow> (replicate k (0 :: byte))[p := 1] ! j = (if j = p then 1 else 0)"
  by (simp add: nth_list_update)

lemma pivot_step_Inr:
  assumes len: "length src = k * k" and ok: "ipiv_ok k ipiv" and col: "col < k"
    and step: "pivot_step k col (src, indxr, indxc, ipiv) = Inr (src', indxr', indxc', ipiv')"
  shows "\<exists>r p. r < k \<and> p < k \<and> ipiv ! r = 0 \<and> ipiv ! p = 0 \<and> src ! (r * k + p) \<noteq> 0
           \<and> ipiv' = ipiv[p := 1] \<and> indxr' = indxr[col := r] \<and> indxc' = indxc[col := p]
           \<and> length src' = k * k
           \<and> (\<forall>i<k. \<forall>j<k. src' ! (i * k + j) = pivoted k src r p i j)"
proof -
  obtain r p where fp: "find_piv src ipiv k col = Inr (r, p)"
    using step by (cases "find_piv src ipiv k col") (auto simp: pivot_step_def)
  from find_piv_Inr [OF ok col fp]
  have rp: "r < k" "p < k" "ipiv ! r = 0" "ipiv ! p = 0" "src ! (r * k + p) \<noteq> 0" by simp_all
  define src1 where "src1 = (if r \<noteq> p then swap_rows src k r p else src)"
  define c where "c = src1 ! (p * k + p)"
  define d where "d = GF_INVERSE ! unat c"
  define src2 where "src2 = (if c \<noteq> 1 then scale_row (src1[p * k + p := 1]) k p d else src1)"
  define src3 where
    "src3 = (if take k (drop (p * k) src2) \<noteq> (replicate k 0)[p := 1] then eliminate src2 k p else src2)"
  have l1: "length src1 = k * k"
    using len rp swap_rows_length [of src k r p] by (simp add: src1_def)
  have n1: "src1 ! (i * k + j) = src ! (swp r p i * k + j)" if "i < k" "j < k" for i j
    using that len rp swap_rows_nth [of src k r p i j] by (simp add: src1_def swp_def)
  have c: "c = src ! (r * k + p)" using n1 [OF rp(2) rp(2)] by (simp add: c_def)
  then have cnz: "c \<noteq> 0" using rp by simp
  have unf: "pivot_step k col (src, indxr, indxc, ipiv)
             = Inr (src3, indxr[col := r], indxc[col := p], ipiv[p := ipiv ! p + 1])"
    using fp cnz unfolding pivot_step_def src3_def src2_def d_def c_def src1_def
    by (simp add: Let_def)
  have res: "src' = src3" "indxr' = indxr[col := r]" "indxc' = indxc[col := p]" "ipiv' = ipiv[p := 1]"
    using step unf rp by simp_all
  have l1': "length (src1[p * k + p := 1]) = k * k" using l1 by simp
  have l2: "length src2 = k * k"
    using l1 scale_row_length [OF l1' rp(2)] by (simp add: src2_def)
  have pp: "p * k + p < length src1" using idx_lt [OF rp(2) rp(2)] l1 by simp
  have n2: "src2 ! (i * k + j)
            = (if i = p then gf_mul_table d (if j = p then 1 else src1 ! (p * k + j))
               else src1 ! (i * k + j))" if "i < k" "j < k" for i j
  proof (cases "c = 1")
    case True
    then have "d = 1" by (simp add: d_def gf_inverse_1)
    then show ?thesis using True c_def by (auto simp: src2_def)
  next
    case False
    then show ?thesis
      using scale_row_nth [OF l1' rp(2) that, of d] that rp(2) pp
      by (auto simp: src2_def nth_list_update idx_inj)
  qed
  have l3: "length src3 = k * k"
    using l2 eliminate_length [OF l2 rp(2)] by (simp add: src3_def)
  have n3: "src3 ! (i * k + j)
            = (if i \<noteq> p
               then (if j = p then 0 else src2 ! (i * k + j))
                      XOR gf_mul_table (src2 ! (i * k + p)) (src2 ! (p * k + j))
               else src2 ! (i * k + j))" if "i < k" "j < k" for i j
  proof (cases "take k (drop (p * k) src2) \<noteq> (replicate k 0)[p := 1]")
    case True
    then show ?thesis using eliminate_nth [OF l2 rp(2) that] by (simp add: src3_def)
  next
    case False
    then have row: "src2 ! (p * k + j') = (if j' = p then 1 else 0)" if "j' < k" for j'
      using row_nth [OF l2 rp(2) that] id_row_nth [OF rp(2) that] by simp
    show ?thesis using False row [OF that(2)] row [OF rp(2)] by (simp add: src3_def)
  qed
  have "src' ! (i * k + j) = pivoted k src r p i j" if "i < k" "j < k" for i j
    unfolding res(1) n3 [OF that] pivoted_def Let_def
    using n2 [OF that] n2 [OF rp(2) that(2)] n2 [OF that(1) rp(2)] n2 [OF rp(2) rp(2)]
      n1 [OF that] n1 [OF rp(2) that(2)] n1 [OF that(1) rp(2)] c d_def
    by (auto simp: swp_def)
  then show ?thesis using rp res l3 by blast
qed

lemma pivot_step_Inl:
  assumes len: "length src = k * k" and ok: "ipiv_ok k ipiv" and col: "col < k"
    and step: "pivot_step k col (src, indxr, indxc, ipiv) = Inl e"
  shows "e = SingularMatrix"
    and "\<And>r p. r < k \<Longrightarrow> p < k \<Longrightarrow> ipiv ! r = 0 \<Longrightarrow> ipiv ! p = 0 \<Longrightarrow> src ! (r * k + p) = 0"
proof -
  have fp: "find_piv src ipiv k col = Inl e"
  proof (cases "find_piv src ipiv k col")
    case (Inl e')
    then show ?thesis using step by (simp add: pivot_step_def)
  next
    case (Inr rp)
    obtain r p where "rp = (r, p)" by (cases rp)
    with Inr have fp: "find_piv src ipiv k col = Inr (r, p)" by simp
    from find_piv_Inr [OF ok col fp]
    have rp: "r < k" "p < k" "src ! (r * k + p) \<noteq> 0" by simp_all
    have "(if r \<noteq> p then swap_rows src k r p else src) ! (p * k + p) = src ! (r * k + p)"
      using len rp swap_rows_nth [of src k r p p p] by (simp add: swp_def)
    then have "\<exists>st. pivot_step k col (src, indxr, indxc, ipiv) = Inr st"
      using fp rp(3) unfolding pivot_step_def by (simp add: Let_def)
    then show ?thesis using step by simp
  qed
  from find_piv_Inl [OF ok fp] show "e = SingularMatrix"
    and "\<And>r p. r < k \<Longrightarrow> p < k \<Longrightarrow> ipiv ! r = 0 \<Longrightarrow> ipiv ! p = 0 \<Longrightarrow> src ! (r * k + p) = 0"
    by simp_all
qed

section \<open>The invariant of Gauss-Jordan elimination\<close>

lemma row_op_xsum:
  assumes "\<And>i. i < k \<Longrightarrow> B i = xsum (\<lambda>l. gf_mul_table (C i l) (A l)) k" "i < k" "p < k"
  shows "row_op p d f (\<lambda>i j. B i) i j = xsum (\<lambda>l. gf_mul_table (row_op p d f C i l) (A l)) k"
proof (cases "i = p")
  case True
  then show ?thesis using assms(1) [OF assms(3)]
    by (simp add: row_op_def xsum_mul_left gf_mul_assoc)
next
  case False
  have "row_op p d f (\<lambda>i j. B i) i j = B i XOR gf_mul_table (f i) (gf_mul_table d (B p))"
    using False by (simp add: row_op_def)
  also have "\<dots> = xsum (\<lambda>l. gf_mul_table (C i l) (A l)) k
                  XOR xsum (\<lambda>l. gf_mul_table (gf_mul_table (f i) (gf_mul_table d (C p l))) (A l)) k"
    using assms(1) [OF assms(2)] assms(1) [OF assms(3)]
    by (simp add: xsum_mul_left gf_mul_assoc)
  also have "\<dots> = xsum (\<lambda>l. gf_mul_table (row_op p d f C i l) (A l)) k"
    using False by (simp add: row_op_def xsum_xor [symmetric] gf_mul_xor_left)
  finally show ?thesis .
qed

lemma pivoted_Bm:
  assumes ok: "ipiv_ok k ipiv" and rp: "r < k" "p < k" "ipiv ! r = 0" "ipiv ! p = 0"
    and nz: "s ! (r * k + p) \<noteq> 0"
    and s': "\<And>i j. i < k \<Longrightarrow> j < k \<Longrightarrow> s' ! (i * k + j) = pivoted k s r p i j"
    and ij: "i < k" "j < k"
  shows "Bm k s' (ipiv[p := 1]) i j
         = row_op p (GF_INVERSE ! unat (s ! (r * k + p))) (\<lambda>i. s ! (swp r p i * k + p))
             (\<lambda>i j. Bm k s ipiv (swp r p i) j) i j"
proof -
  let ?d = "GF_INVERSE ! unat (s ! (r * k + p))"
  have dc: "gf_mul_table ?d (s ! (r * k + p)) = 1" using gf_inverse [OF nz] .
  have lp: "p < length ipiv" using ok rp by (simp add: ipiv_ok_def)
  consider (piv) "ipiv ! j = 1" | (p) "j = p" | (other) "ipiv ! j \<noteq> 1" "j \<noteq> p" by blast
  then show ?thesis
  proof cases
    case piv
    then have "j \<noteq> p" "j \<noteq> r" using rp by auto
    then show ?thesis using piv lp
      by (auto simp: Bm_def row_op_def nth_list_update swp_def)
  next
    case p
    then show ?thesis using rp lp dc
      by (auto simp: Bm_def row_op_def nth_list_update swp_def)
  next
    case other
    then show ?thesis using lp s' [OF ij] rp
      by (auto simp: Bm_def row_op_def nth_list_update pivoted_def Let_def swp_def)
  qed
qed

lemma pivoted_Cm:
  assumes ok: "ipiv_ok k ipiv" and rp: "r < k" "p < k" "ipiv ! r = 0" "ipiv ! p = 0"
    and s': "\<And>i j. i < k \<Longrightarrow> j < k \<Longrightarrow> s' ! (i * k + j) = pivoted k s r p i j"
    and ij: "i < k" "j < k"
  shows "Cm k s' (ipiv[p := 1]) i j
         = row_op p (GF_INVERSE ! unat (s ! (r * k + p))) (\<lambda>i. s ! (swp r p i * k + p))
             (\<lambda>i j. Cm k s ipiv (swp r p i) (swp r p j)) i j"
proof -
  let ?d = "GF_INVERSE ! unat (s ! (r * k + p))"
  have lp: "p < length ipiv" using ok rp by (simp add: ipiv_ok_def)
  have z: "ipiv ! x = 0" if "ipiv ! x \<noteq> 1" "x < k" for x
    using ok that by (auto simp: ipiv_ok_def)
  consider (piv) "ipiv ! j = 1" | (p) "j = p" | (other) "ipiv ! j \<noteq> 1" "j \<noteq> p" by blast
  then show ?thesis
  proof cases
    case piv
    then have "j \<noteq> p" "j \<noteq> r" using rp by auto
    then show ?thesis using piv lp s' [OF ij]
      by (auto simp: Cm_def row_op_def nth_list_update pivoted_def Let_def swp_def)
  next
    case p
    then show ?thesis using rp lp s' [OF ij]
      by (auto simp: Cm_def row_op_def nth_list_update pivoted_def Let_def swp_def)
  next
    case other
    then show ?thesis using lp rp z [OF other(1) ij(2)]
      by (auto simp: Cm_def row_op_def nth_list_update swp_def)
  qed
qed

lemma identity_matrix_length [simp]: "length (identity_matrix k) = k * k"
  by (simp add: identity_matrix_def)

lemma identity_matrix_nth:
  "i < k \<Longrightarrow> j < k \<Longrightarrow> identity_matrix k ! (i * k + j) = (if i = j then 1 else 0)"
  using idx_lt [of i k j k] by (simp add: identity_matrix_def)

lemma ipiv_ok_update: "ipiv_ok k ipiv \<Longrightarrow> ipiv_ok k (ipiv[p := 1])"
  by (cases "p < length ipiv") (auto simp: ipiv_ok_def nth_list_update)

lemma pivots_update:
  "ipiv_ok k ipiv \<Longrightarrow> p < k \<Longrightarrow> pivots k (ipiv[p := 1]) = insert p (pivots k ipiv)"
  by (auto simp: pivots_def ipiv_ok_def nth_list_update split: if_splits)

lemma finite_pivots [simp]: "finite (pivots k ipiv)"
  by (simp add: pivots_def)

lemma card_pivots_update:
  "ipiv_ok k ipiv \<Longrightarrow> p < k \<Longrightarrow> ipiv ! p = 0 \<Longrightarrow>
   card (pivots k (ipiv[p := 1])) = card (pivots k ipiv) + 1"
proof -
  assume a: "ipiv_ok k ipiv" "p < k" "ipiv ! p = 0"
  have "p \<notin> pivots k ipiv" using a(3) by (simp add: pivots_def)
  then show ?thesis using pivots_update [OF a(1,2)] by simp
qed

lemma pivots_not_all:
  assumes "card (pivots k ipiv) < k" "ipiv_ok k ipiv"
  shows "\<exists>i<k. ipiv ! i = 0"
proof (rule ccontr)
  assume "\<not> (\<exists>i<k. ipiv ! i = 0)"
  then have "\<And>i. i < k \<Longrightarrow> ipiv ! i = 1" using assms(2) unfolding ipiv_ok_def by blast
  then have "pivots k ipiv = {..<k}" by (auto simp: pivots_def)
  then show False using assms(1) by simp
qed

lemma pivots_all:
  assumes "card (pivots k ipiv) = k" "j < k"
  shows "ipiv ! j = 1"
proof -
  have "pivots k ipiv \<subseteq> {..<k}" by (auto simp: pivots_def)
  then have "pivots k ipiv = {..<k}" using assms(1) by (intro card_subset_eq) simp_all
  then show ?thesis using assms(2) by (auto simp: pivots_def)
qed

lemma perm_upto_cong:
  "(\<And>c. c < m \<Longrightarrow> a ! c = a' ! c \<and> b ! c = b' ! c) \<Longrightarrow> perm_upto a b m j = perm_upto a' b' m j"
  by (induction m) simp_all

lemma gj_inv_step:
  assumes inv: "gj_inv k A s ipiv \<sigma>"
    and rp: "r < k" "p < k" "ipiv ! r = 0" "ipiv ! p = 0" and nz: "s ! (r * k + p) \<noteq> 0"
    and len: "length s' = k * k"
    and s': "\<And>i j. i < k \<Longrightarrow> j < k \<Longrightarrow> s' ! (i * k + j) = pivoted k s r p i j"
  shows "gj_inv k A s' (ipiv[p := 1]) (\<lambda>l. swp r p (\<sigma> l))"
proof -
  have ok: "ipiv_ok k ipiv" and sl: "\<And>l. l < k \<Longrightarrow> \<sigma> l < k"
    and surj: "\<And>j. j < k \<Longrightarrow> \<exists>l<k. \<sigma> l = j"
    and eq: "\<And>i j. i < k \<Longrightarrow> j < k \<Longrightarrow>
       Bm k s ipiv i j = xsum (\<lambda>l. gf_mul_table (Cm k s ipiv i (\<sigma> l)) (A ! (l * k + j))) k"
    using inv by (auto simp: gj_inv_def)
  let ?d = "GF_INVERSE ! unat (s ! (r * k + p))"
  let ?f = "\<lambda>i. s ! (swp r p i * k + p)"
  let ?t = "swp r p"
  have tl: "?t x < k" if "x < k" for x using that rp by (simp add: swp_less)
  show ?thesis unfolding gj_inv_def
  proof (intro conjI allI impI)
    show "length s' = k * k" by fact
    show "ipiv_ok k (ipiv[p := 1])" using ok by (rule ipiv_ok_update)
  next
    fix l assume "l < k"
    then show "?t (\<sigma> l) < k" using sl tl by simp
  next
    fix j assume "j < k"
    then obtain l where "l < k" "\<sigma> l = ?t j" using surj [OF tl] by blast
    then show "\<exists>l<k. ?t (\<sigma> l) = j" by (intro exI [of _ l]) simp
  next
    fix i j assume ij: "i < k" "j < k"
    have old: "Bm k s ipiv (?t i') j
               = xsum (\<lambda>l. gf_mul_table (Cm k s ipiv (?t i') (?t (?t (\<sigma> l)))) (A ! (l * k + j))) k"
      if "i' < k" for i'
      using eq [OF tl [OF that] ij(2)] by simp
    have "Bm k s' (ipiv[p := 1]) i j
          = row_op p ?d ?f (\<lambda>i j'. Bm k s ipiv (?t i) j) i j"
      using pivoted_Bm [OF ok rp nz s' ij] by (simp add: row_op_def)
    also have "\<dots> = xsum (\<lambda>l. gf_mul_table
                  (row_op p ?d ?f (\<lambda>i l. Cm k s ipiv (?t i) (?t (?t (\<sigma> l)))) i l) (A ! (l * k + j))) k"
      by (rule row_op_xsum [where B = "\<lambda>i. Bm k s ipiv (?t i) j", OF old ij(1) rp(2)])
    also have "\<dots> = xsum (\<lambda>l. gf_mul_table (Cm k s' (ipiv[p := 1]) i (?t (\<sigma> l))) (A ! (l * k + j))) k"
    proof (rule xsum_cong)
      fix l assume l: "l < k"
      have "Cm k s' (ipiv[p := 1]) i (?t (\<sigma> l))
            = row_op p ?d ?f (\<lambda>i j. Cm k s ipiv (?t i) (?t j)) i (?t (\<sigma> l))"
        by (rule pivoted_Cm [OF ok rp s' ij(1) tl [OF sl [OF l]]])
      then show "gf_mul_table
                  (row_op p ?d ?f (\<lambda>i l. Cm k s ipiv (?t i) (?t (?t (\<sigma> l)))) i l) (A ! (l * k + j))
                 = gf_mul_table (Cm k s' (ipiv[p := 1]) i (?t (\<sigma> l))) (A ! (l * k + j))"
        by (simp add: row_op_def)
    qed
    finally show "Bm k s' (ipiv[p := 1]) i j
          = xsum (\<lambda>l. gf_mul_table (Cm k s' (ipiv[p := 1]) i (?t (\<sigma> l))) (A ! (l * k + j))) k" .
  qed
qed

lemma loop_inv_step:
  assumes inv: "loop_inv k A col (s, indxr, indxc, ipiv)" and col: "col < k"
    and step: "pivot_step k col (s, indxr, indxc, ipiv) = Inr st'"
  shows "loop_inv k A (col + 1) st'"
proof -
  obtain s' indxr' indxc' ipiv' where st': "st' = (s', indxr', indxc', ipiv')"
    by (cases st') auto
  have li: "length indxr = k" "length indxc = k" "\<forall>c<col. indxr ! c < k \<and> indxc ! c < k"
    "card (pivots k ipiv) = col" and gj: "gj_inv k A s ipiv (perm_upto indxr indxc col)"
    using inv by (simp_all add: loop_inv_def)
  have len: "length s = k * k" and ok: "ipiv_ok k ipiv" using gj by (simp_all add: gj_inv_def)
  from pivot_step_Inr [OF len ok col step [unfolded st']]
  obtain r p where rp: "r < k" "p < k" "ipiv ! r = 0" "ipiv ! p = 0" "s ! (r * k + p) \<noteq> 0"
    and res: "ipiv' = ipiv[p := 1]" "indxr' = indxr[col := r]" "indxc' = indxc[col := p]"
      "length s' = k * k" "\<And>i j. i < k \<Longrightarrow> j < k \<Longrightarrow> s' ! (i * k + j) = pivoted k s r p i j"
    by blast
  have pe: "perm_upto indxr' indxc' col j = perm_upto indxr indxc col j" for j
    unfolding res by (rule perm_upto_cong) simp
  have "perm_upto indxr' indxc' (col + 1) = (\<lambda>l. swp r p (perm_upto indxr indxc col l))"
    using pe li col by (auto simp: res)
  moreover have "gj_inv k A s' (ipiv[p := 1]) (\<lambda>l. swp r p (perm_upto indxr indxc col l))"
    by (rule gj_inv_step [OF gj rp(1-4) rp(5) res(4) res(5)])
  moreover have "\<forall>c<col + 1. indxr' ! c < k \<and> indxc' ! c < k"
    using li rp col by (auto simp: res nth_list_update less_Suc_eq)
  moreover have "card (pivots k ipiv') = col + 1"
    using card_pivots_update [OF ok rp(2) rp(4)] li by (simp add: res)
  ultimately show ?thesis using li by (simp add: loop_inv_def st' res)
qed

lemma right_inverse_no_zero_row:
  assumes gj: "gj_inv k A s ipiv \<sigma>"
    and N: "\<And>i j. i < k \<Longrightarrow> j < k \<Longrightarrow>
        xsum (\<lambda>m. gf_mul_table (A ! (i * k + m)) (N ! (m * k + j))) k = (if i = j then 1 else 0)"
    and i: "i < k" "ipiv ! i = 0"
    and zero: "\<And>j. j < k \<Longrightarrow> Bm k s ipiv i j = 0"
  shows False
proof -
  have sl: "\<And>l. l < k \<Longrightarrow> \<sigma> l < k" and surj: "\<And>j. j < k \<Longrightarrow> \<exists>l<k. \<sigma> l = j"
    and eq: "\<And>i j. i < k \<Longrightarrow> j < k \<Longrightarrow>
       Bm k s ipiv i j = xsum (\<lambda>l. gf_mul_table (Cm k s ipiv i (\<sigma> l)) (A ! (l * k + j))) k"
    using gj by (auto simp: gj_inv_def)
  obtain l where l: "l < k" "\<sigma> l = i" using surj [OF i(1)] by blast
  let ?E = "\<lambda>m. Cm k s ipiv i (\<sigma> m)"
  have "(0 :: byte) = xsum (\<lambda>j. gf_mul_table (Bm k s ipiv i j) (N ! (j * k + l))) k"
    using zero by (simp add: xsum_cong [where g = "\<lambda>j. 0"])
  also have "\<dots> = xsum (\<lambda>j. xsum (\<lambda>m. gf_mul_table (?E m)
                      (gf_mul_table (A ! (m * k + j)) (N ! (j * k + l)))) k) k"
    by (intro xsum_cong) (simp add: eq [OF i(1)] xsum_mul_right gf_mul_assoc)
  also have "\<dots> = xsum (\<lambda>m. xsum (\<lambda>j. gf_mul_table (?E m)
                      (gf_mul_table (A ! (m * k + j)) (N ! (j * k + l)))) k) k"
    by (rule xsum_swap)
  also have "\<dots> = xsum (\<lambda>m. gf_mul_table (?E m) (if m = l then 1 else 0)) k"
    by (intro xsum_cong) (simp add: xsum_mul_left [symmetric] N l(1))
  also have "\<dots> = xsum (\<lambda>m. if m = l then ?E m else 0) k"
    by (intro xsum_cong) simp
  also have "\<dots> = ?E l" using l(1) by (simp add: xsum_delta)
  also have "\<dots> = 1" using l(2) i(2) by (simp add: Cm_def)
  finally show False by simp
qed

lemma loop_inv_no_error:
  assumes inv: "loop_inv k A col (s, indxr, indxc, ipiv)" and col: "col < k"
    and N: "\<And>i j. i < k \<Longrightarrow> j < k \<Longrightarrow>
        xsum (\<lambda>m. gf_mul_table (A ! (i * k + m)) (N ! (m * k + j))) k = (if i = j then 1 else 0)"
  shows "pivot_step k col (s, indxr, indxc, ipiv) \<noteq> Inl e"
proof
  assume step: "pivot_step k col (s, indxr, indxc, ipiv) = Inl e"
  have card: "card (pivots k ipiv) = col" and gj: "gj_inv k A s ipiv (perm_upto indxr indxc col)"
    using inv by (simp_all add: loop_inv_def)
  have len: "length s = k * k" and ok: "ipiv_ok k ipiv" using gj by (simp_all add: gj_inv_def)
  obtain i where i: "i < k" "ipiv ! i = 0" using pivots_not_all [of k ipiv] card col ok by auto
  have "Bm k s ipiv i j = 0" if "j < k" for j
  proof (cases "ipiv ! j = 1")
    case True
    then show ?thesis using i by (auto simp: Bm_def)
  next
    case False
    then have "ipiv ! j = 0" using ok that by (auto simp: ipiv_ok_def)
    then show ?thesis using pivot_step_Inl(2) [OF len ok col step i(1) that i(2)] by (simp add: Bm_def)
  qed
  then show False using right_inverse_no_zero_row [OF gj N i] by blast
qed

lemma pivot_loop_succeeds:
  assumes N: "\<And>i j. i < k \<Longrightarrow> j < k \<Longrightarrow>
        xsum (\<lambda>m. gf_mul_table (A ! (i * k + m)) (N ! (m * k + j))) k = (if i = j then 1 else 0)"
  shows "loop_inv k A col st \<Longrightarrow> col \<le> k \<Longrightarrow> \<exists>st'. pivot_loop k col st = Inr st' \<and> loop_inv k A k st'"
proof (induction "k - col" arbitrary: col st)
  case 0
  then have "col = k" by simp
  then show ?case using "0.prems" by (subst pivot_loop.simps) simp
next
  case (Suc x)
  then have True: "col < k" by simp
  obtain s indxr indxc ipiv where st: "st = (s, indxr, indxc, ipiv)" by (cases st) auto
  have "pivot_step k col st \<noteq> Inl e" for e
    using loop_inv_no_error [OF Suc.prems(1) [unfolded st] True N] st by simp
  then obtain st1 where st1: "pivot_step k col st = Inr st1"
    by (cases "pivot_step k col st") auto
  have "loop_inv k A (col + 1) st1"
    using loop_inv_step [OF Suc.prems(1) [unfolded st] True] st1 st by simp
  then have "\<exists>st'. pivot_loop k (col + 1) st1 = Inr st' \<and> loop_inv k A k st'"
    using Suc.hyps(1) [of "col + 1" st1] Suc.hyps(2) True by simp
  then show ?case using True st1 by (subst pivot_loop.simps) simp
qed

lemma xsum_delta_mul:
  "xsum (\<lambda>l. gf_mul_table (if i = l then 1 else 0) (f l)) k = (if i < k then f i else 0)"
proof -
  have "xsum (\<lambda>l. gf_mul_table (if i = l then 1 else 0) (f l)) k
        = xsum (\<lambda>l. if l = i then f l else 0) k"
    by (intro xsum_cong) auto
  then show ?thesis by (simp add: xsum_delta)
qed

lemma xsum_mul_delta:
  "xsum (\<lambda>l. gf_mul_table (f l) (if l = j then 1 else 0)) k = (if j < k then f j else 0)"
proof -
  have "xsum (\<lambda>l. gf_mul_table (f l) (if l = j then 1 else 0)) k
        = xsum (\<lambda>l. if l = j then f l else 0) k"
    by (intro xsum_cong) auto
  then show ?thesis by (simp add: xsum_delta)
qed

lemma loop_inv_init:
  assumes "length M = k * k"
  shows "loop_inv k M 0 (M, replicate k 0, replicate k 0, replicate k 0)"
proof -
  have "pivots k (replicate k 0) = {}" by (auto simp: pivots_def)
  moreover have "Bm k M (replicate k 0) i j
      = xsum (\<lambda>l. gf_mul_table (Cm k M (replicate k 0) i l) (M ! (l * k + j))) k"
    if "i < k" "j < k" for i j
  proof -
    have "xsum (\<lambda>l. gf_mul_table (Cm k M (replicate k 0) i l) (M ! (l * k + j))) k
          = xsum (\<lambda>l. gf_mul_table (if i = l then 1 else 0) (M ! (l * k + j))) k"
      by (intro xsum_cong) (simp add: Cm_def)
    then show ?thesis using that by (simp add: Bm_def xsum_delta_mul)
  qed
  then have "gj_inv k M M (replicate k 0) (perm_upto (replicate k 0) (replicate k 0) 0)"
    unfolding gj_inv_def using assms
    by (auto simp: ipiv_ok_def)
  ultimately show ?thesis by (simp add: loop_inv_def)
qed

lemma matmul_identity_D:
  assumes "length c0 = k * k" "matmul M N c0 k k k = identity_matrix k" "i < k" "j < k"
  shows "xsum (\<lambda>m. gf_mul_table (M ! (i * k + m)) (N ! (m * k + j))) k = (if i = j then 1 else 0)"
  using matmul_nth [OF assms(1,3,4), of M N k] assms(2) identity_matrix_nth [OF assms(3,4)] by simp

lemma matmul_identity_I:
  assumes "length c = k * k"
    and "\<And>i j. i < k \<Longrightarrow> j < k \<Longrightarrow>
      xsum (\<lambda>m. gf_mul_table (M ! (i * k + m)) (N ! (m * k + j))) k = (if i = j then 1 else 0)"
  shows "matmul M N c k k k = identity_matrix k"
proof (rule mat_ext [of _ k k])
  show "length (matmul M N c k k k) = k * k" using assms(1) by (simp add: length_matmul)
  show "length (identity_matrix k) = k * k" by simp
  fix i j assume "i < k" "j < k"
  then show "matmul M N c k k k ! (i * k + j) = identity_matrix k ! (i * k + j)"
    using matmul_nth [OF assms(1), of i j M N k] assms(2) identity_matrix_nth by simp
qed

lemma left_inverse_eq_right_inverse:
  assumes E: "\<And>i j. i < k \<Longrightarrow> j < k \<Longrightarrow>
        xsum (\<lambda>l. gf_mul_table (E i l) (M ! (l * k + j))) k = (if i = j then 1 else 0)"
    and N: "\<And>i j. i < k \<Longrightarrow> j < k \<Longrightarrow>
        xsum (\<lambda>m. gf_mul_table (M ! (i * k + m)) (N ! (m * k + j))) k = (if i = j then 1 else 0)"
    and il: "i < k" "l < k"
  shows "E i l = N ! (i * k + l)"
proof -
  have "E i l = xsum (\<lambda>j. gf_mul_table (E i j) (if j = l then 1 else 0)) k"
    using il by (simp add: xsum_mul_delta)
  also have "\<dots> = xsum (\<lambda>j. xsum (\<lambda>m. gf_mul_table (E i j)
                       (gf_mul_table (M ! (j * k + m)) (N ! (m * k + l)))) k) k"
    by (intro xsum_cong) (simp add: xsum_mul_left [symmetric] N il)
  also have "\<dots> = xsum (\<lambda>m. xsum (\<lambda>j. gf_mul_table (E i j)
                       (gf_mul_table (M ! (j * k + m)) (N ! (m * k + l)))) k) k"
    by (rule xsum_swap)
  also have "\<dots> = xsum (\<lambda>m. gf_mul_table (if i = m then 1 else 0) (N ! (m * k + l))) k"
    by (intro xsum_cong) (simp add: gf_mul_assoc [symmetric] xsum_mul_right [symmetric] E il)
  also have "\<dots> = N ! (i * k + l)" using il by (simp add: xsum_delta_mul)
  finally show ?thesis .
qed

text \<open>
  C4 (Gauss-Jordan inversion): for every \<open>k\<close> and every non-singular \<open>k\<close> by \<open>k\<close> matrix
  \<open>M\<close> over GF(2^8), that is, every \<open>M\<close> for which some \<open>N\<close> has \<open>matmul(M, N)\<close> equal to the
  identity, \<open>invert_mat(M, k)\<close> returns without error and leaves a matrix \<open>M'\<close> with
  \<open>matmul(M, M')\<close> equal to the identity (into whatever buffer \<open>c\<close> the product is written).
\<close>

theorem invert_mat_correct:
  assumes "length M = k * k" "length N = k * k" "length c0 = k * k"
    and "matmul M N c0 k k k = identity_matrix k" and "length c = k * k"
  shows "\<exists>M'. invert_mat M k = Inr M' \<and> length M' = k * k
           \<and> matmul M M' c k k k = identity_matrix k"
proof -
  have N: "\<And>i j. i < k \<Longrightarrow> j < k \<Longrightarrow>
      xsum (\<lambda>m. gf_mul_table (M ! (i * k + m)) (N ! (m * k + j))) k = (if i = j then 1 else 0)"
    by (rule matmul_identity_D [OF assms(3,4)])
  obtain st' where st': "pivot_loop k 0 (M, replicate k 0, replicate k 0, replicate k 0) = Inr st'"
    and inv: "loop_inv k M k st'"
    using pivot_loop_succeeds [OF N loop_inv_init [OF assms(1)]] by blast
  obtain s indxr indxc ipiv where st: "st' = (s, indxr, indxc, ipiv)" by (cases st') auto
  let ?\<sigma> = "perm_upto indxr indxc k"
  have ix: "\<forall>c<k. indxr ! c < k \<and> indxc ! c < k" and card: "card (pivots k ipiv) = k"
    and gj: "gj_inv k M s ipiv ?\<sigma>"
    using inv by (simp_all add: loop_inv_def st)
  have len: "length s = k * k" and sl: "\<And>l. l < k \<Longrightarrow> ?\<sigma> l < k"
    and eq: "\<And>i j. i < k \<Longrightarrow> j < k \<Longrightarrow>
       Bm k s ipiv i j = xsum (\<lambda>l. gf_mul_table (Cm k s ipiv i (?\<sigma> l)) (M ! (l * k + j))) k"
    using gj by (auto simp: gj_inv_def)
  have all: "ipiv ! j = 1" if "j < k" for j using pivots_all [OF card that] .
  define M' where "M' = unscramble s indxr indxc k"
  have res: "invert_mat M k = Inr M'" using st' by (simp add: invert_mat_def st M'_def)
  have lM': "length M' = k * k" unfolding M'_def by (rule unscramble_length [OF len ix])
  have M'n: "M' ! (i * k + l) = s ! (i * k + ?\<sigma> l)" if "i < k" "l < k" for i l
    unfolding M'_def by (rule unscramble_nth [OF len ix that])
  have E: "xsum (\<lambda>l. gf_mul_table (M' ! (i * k + l)) (M ! (l * k + j))) k = (if i = j then 1 else 0)"
    if "i < k" "j < k" for i j
  proof -
    have "xsum (\<lambda>l. gf_mul_table (M' ! (i * k + l)) (M ! (l * k + j))) k
          = xsum (\<lambda>l. gf_mul_table (Cm k s ipiv i (?\<sigma> l)) (M ! (l * k + j))) k"
      by (intro xsum_cong) (simp add: M'n that Cm_def all sl)
    also have "\<dots> = Bm k s ipiv i j" using eq [OF that] by simp
    also have "\<dots> = (if i = j then 1 else 0)" using all [OF that(2)] by (simp add: Bm_def)
    finally show ?thesis .
  qed
  have "M' ! (i * k + l) = N ! (i * k + l)" if "i < k" "l < k" for i l
    by (rule left_inverse_eq_right_inverse [where E = "\<lambda>i l. M' ! (i * k + l)", OF E N that])
  then have "M' = N" using lM' assms(2) by (intro mat_ext [of _ k k]) simp_all
  then have "matmul M M' c k k k = identity_matrix k"
    using matmul_identity_I [OF assms(5) N] by simp
  then show ?thesis using res lM' by blast
qed

theorem invert_mat_correct_witness:
  "length [1, 2, 3, 4 :: byte] = 2 * 2 \<and> length [2, 1, 143, 142 :: byte] = 2 * 2
   \<and> matmul [1, 2, 3, 4] [2, 1, 143, 142] [0, 0, 0, 0] 2 2 2 = identity_matrix 2
   \<and> (\<exists>M'. invert_mat [1, 2, 3, 4] 2 = Inr M' \<and> length M' = 2 * 2
         \<and> matmul [1, 2, 3, 4] M' [9, 9, 9, 9] 2 2 2 = identity_matrix 2)"
proof -
  have h1: "length [1, 2, 3, 4 :: byte] = 2 * 2" and h2: "length [2, 1, 143, 142 :: byte] = 2 * 2"
    and h3: "length [0, 0, 0, 0 :: byte] = 2 * 2" and h5: "length [9, 9, 9, 9 :: byte] = 2 * 2"
    by simp_all
  have h4: "matmul [1, 2, 3, 4] [2, 1, 143, 142] [0, 0, 0, 0] 2 2 2 = identity_matrix 2"
    by code_simp
  show ?thesis using h1 h2 h4 invert_mat_correct [OF h1 h2 h3 h4 h5] by simp
qed

section \<open>Singular matrices\<close>

lemma xor_self_byte [simp]: "(x :: byte) XOR x = 0"
  by simp

lemma kernel_row_op:
  assumes p: "p < k" and dc: "gf_mul_table d c = 1"
    and zero: "xsum (\<lambda>i. gf_mul_table (w i) (X i j)) k = 0"
  shows "xsum (\<lambda>i. gf_mul_table
                 (if i = p then gf_mul_table c (w p)
                                 XOR xsum (\<lambda>i. if i = p then 0 else gf_mul_table (w i) (f i)) k
                  else w i)
                 (row_op p d f X i j)) k = 0"
proof -
  let ?T = "xsum (\<lambda>i. if i = p then 0 else gf_mul_table (w i) (f i)) k"
  let ?w' = "\<lambda>i. if i = p then gf_mul_table c (w p) XOR ?T else w i"
  let ?y = "gf_mul_table d (X p j)"
  let ?G = "xsum (\<lambda>i. if i = p then 0 else gf_mul_table (w i) (X i j)) k"
  have z: "gf_mul_table (w p) (X p j) XOR ?G = 0"
    using xsum_remove [OF p, of "\<lambda>i. gf_mul_table (w i) (X i j)"] zero by simp
  have cd: "gf_mul_table c ?y = X p j"
    using dc by (simp add: gf_mul_assoc [symmetric] gf_mul_commute [of c d])
  have "xsum (\<lambda>i. gf_mul_table (?w' i) (row_op p d f X i j)) k
        = gf_mul_table (?w' p) (row_op p d f X p j)
          XOR xsum (\<lambda>i. if i = p then 0 else gf_mul_table (?w' i) (row_op p d f X i j)) k"
    by (rule xsum_remove [OF p])
  also have "xsum (\<lambda>i. if i = p then 0 else gf_mul_table (?w' i) (row_op p d f X i j)) k
        = xsum (\<lambda>i. (if i = p then 0 else gf_mul_table (w i) (X i j))
                   XOR gf_mul_table (if i = p then 0 else gf_mul_table (w i) (f i)) ?y) k"
    by (intro xsum_cong) (simp add: row_op_def gf_mul_xor_right gf_mul_assoc)
  also have "\<dots> = ?G XOR gf_mul_table ?T ?y"
    by (simp add: xsum_xor xsum_mul_right)
  also have "gf_mul_table (?w' p) (row_op p d f X p j)
             = gf_mul_table (w p) (X p j) XOR gf_mul_table ?T ?y"
  proof -
    have "gf_mul_table (gf_mul_table c (w p)) ?y = gf_mul_table (w p) (gf_mul_table c ?y)"
      by (simp add: gf_mul_commute [of c "w p"] gf_mul_assoc)
    then show ?thesis using cd by (simp add: row_op_def gf_mul_xor_left)
  qed
  finally have "xsum (\<lambda>i. gf_mul_table (?w' i) (row_op p d f X i j)) k
        = (gf_mul_table (w p) (X p j) XOR ?G) XOR (gf_mul_table ?T ?y XOR gf_mul_table ?T ?y)"
    by (simp add: ac_simps)
  then show ?thesis using z by simp
qed

lemma sing_inv_step:
  assumes inv: "sing_inv k s ipiv"
    and rp: "r < k" "p < k" "ipiv ! r = 0" "ipiv ! p = 0" and nz: "s ! (r * k + p) \<noteq> 0"
    and len: "length s' = k * k"
    and s': "\<And>i j. i < k \<Longrightarrow> j < k \<Longrightarrow> s' ! (i * k + j) = pivoted k s r p i j"
  shows "sing_inv k s' (ipiv[p := 1])"
proof -
  have ok: "ipiv_ok k ipiv" using inv by (simp add: sing_inv_def)
  obtain w i0 where i0: "i0 < k" "w i0 \<noteq> 0"
    and ker: "\<And>j. j < k \<Longrightarrow> xsum (\<lambda>i. gf_mul_table (w i) (Bm k s ipiv i j)) k = 0"
    using inv unfolding sing_inv_def by blast
  let ?c = "s ! (r * k + p)"
  let ?d = "GF_INVERSE ! unat ?c"
  let ?f = "\<lambda>i. s ! (swp r p i * k + p)"
  let ?t = "swp r p"
  let ?w1 = "\<lambda>i. w (?t i)"
  let ?T = "xsum (\<lambda>i. if i = p then 0 else gf_mul_table (?w1 i) (?f i)) k"
  let ?w' = "\<lambda>i. if i = p then gf_mul_table ?c (?w1 p) XOR ?T else ?w1 i"
  have dc: "gf_mul_table ?d ?c = 1" using gf_inverse [OF nz] .
  have ker1: "xsum (\<lambda>i. gf_mul_table (?w1 i) (Bm k s ipiv (?t i) j)) k = 0" if "j < k" for j
    using xsum_swp [OF rp(1,2), of "\<lambda>i. gf_mul_table (w i) (Bm k s ipiv i j)"] ker [OF that]
    by simp
  have ker': "xsum (\<lambda>i. gf_mul_table (?w' i) (Bm k s' (ipiv[p := 1]) i j)) k = 0" if "j < k" for j
  proof -
    have "xsum (\<lambda>i. gf_mul_table (?w' i) (Bm k s' (ipiv[p := 1]) i j)) k
          = xsum (\<lambda>i. gf_mul_table (?w' i)
                (row_op p ?d ?f (\<lambda>i j. Bm k s ipiv (?t i) j) i j)) k"
      by (intro xsum_cong) (simp only: pivoted_Bm [OF ok rp nz s' _ that])
    also have "\<dots> = 0"
      by (rule kernel_row_op [where w = ?w1 and X = "\<lambda>i j. Bm k s ipiv (?t i) j" and f = ?f,
            OF rp(2) dc ker1 [OF that]])
    finally show ?thesis .
  qed
  have "\<exists>i<k. ?w' i \<noteq> 0"
  proof (rule ccontr)
    assume "\<not> (\<exists>i<k. ?w' i \<noteq> 0)"
    then have all0: "\<And>i. i < k \<Longrightarrow> ?w' i = 0" by blast
    have w1: "?w1 i = 0" if "i < k" "i \<noteq> p" for i using all0 [OF that(1)] that(2) by simp
    have "?T = xsum (\<lambda>i. 0) k"
      by (intro xsum_cong) (simp add: w1)
    then have "gf_mul_table ?c (?w1 p) = 0" using all0 [OF rp(2)] by simp
    then have "?w1 p = 0" using nz by (simp add: gf_mul_zero_iff)
    then have "?w1 i = 0" if "i < k" for i using w1 that by (cases "i = p") auto
    then have "?w1 (?t i0) = 0" using swp_less [OF rp(1,2) i0(1)] by blast
    then show False using i0 by simp
  qed
  then have nz': "\<exists>i<k. ?w' i \<noteq> 0" .
  show ?thesis
    unfolding sing_inv_def
  proof (intro conjI exI [of _ ?w'])
    show "length s' = k * k" by fact
    show "ipiv_ok k (ipiv[p := 1])" using ok by (rule ipiv_ok_update)
    show "\<exists>i<k. ?w' i \<noteq> 0" by (rule nz')
    show "\<forall>j<k. xsum (\<lambda>i. gf_mul_table (?w' i) (Bm k s' (ipiv[p := 1]) i j)) k = 0"
      using ker' by blast
  qed
qed

lemma sing_inv_not_all:
  assumes "sing_inv k s ipiv" "card (pivots k ipiv) = k"
  shows False
proof -
  obtain w i0 where i0: "i0 < k" "w i0 \<noteq> 0"
    and ker: "\<And>j. j < k \<Longrightarrow> xsum (\<lambda>i. gf_mul_table (w i) (Bm k s ipiv i j)) k = 0"
    using assms(1) unfolding sing_inv_def by blast
  have "xsum (\<lambda>i. gf_mul_table (w i) (Bm k s ipiv i i0)) k
        = xsum (\<lambda>i. gf_mul_table (w i) (if i = i0 then 1 else 0)) k"
    by (intro xsum_cong) (simp add: Bm_def pivots_all [OF assms(2) i0(1)])
  then have "w i0 = 0" using ker [OF i0(1)] i0(1) by (simp add: xsum_mul_delta)
  then show False using i0 by simp
qed

lemma pivot_loop_singular:
  "sing_inv k s ipiv \<Longrightarrow> card (pivots k ipiv) = col \<Longrightarrow> col \<le> k \<Longrightarrow>
   pivot_loop k col (s, indxr, indxc, ipiv) = Inl SingularMatrix"
proof (induction "k - col" arbitrary: col s indxr indxc ipiv)
  case 0
  then have "col = k" by simp
  then show ?case using sing_inv_not_all [OF "0.prems"(1)] "0.prems"(2) by simp
next
  case (Suc x)
  then have col: "col < k" by simp
  have len: "length s = k * k" and ok: "ipiv_ok k ipiv"
    using Suc.prems(1) by (simp_all add: sing_inv_def)
  show ?case
  proof (cases "pivot_step k col (s, indxr, indxc, ipiv)")
    case (Inl e)
    then have "e = SingularMatrix" using pivot_step_Inl(1) [OF len ok col] by simp
    then show ?thesis using Inl col by (subst pivot_loop.simps) simp
  next
    case (Inr st1)
    obtain s' indxr' indxc' ipiv' where st1: "st1 = (s', indxr', indxc', ipiv')"
      by (cases st1) auto
    from pivot_step_Inr [OF len ok col Inr [unfolded st1]]
    obtain r p where rp: "r < k" "p < k" "ipiv ! r = 0" "ipiv ! p = 0" "s ! (r * k + p) \<noteq> 0"
      and res: "ipiv' = ipiv[p := 1]" "length s' = k * k"
        "\<And>i j. i < k \<Longrightarrow> j < k \<Longrightarrow> s' ! (i * k + j) = pivoted k s r p i j"
      by blast
    have "sing_inv k s' ipiv'"
      unfolding res(1) by (rule sing_inv_step [OF Suc.prems(1) rp(1-4) rp(5) res(2) res(3)])
    moreover have "card (pivots k ipiv') = col + 1"
      using card_pivots_update [OF ok rp(2) rp(4)] Suc.prems(2) by (simp add: res(1))
    ultimately have "pivot_loop k (col + 1) (s', indxr', indxc', ipiv') = Inl SingularMatrix"
      using Suc.hyps(1) [of "col + 1" s' ipiv' indxr' indxc'] Suc.hyps(2) col by simp
    then show ?thesis using Inr col st1 by (subst pivot_loop.simps) simp
  qed
qed

lemma invert_mat_equal_rows:
  assumes len: "length M = k * k" and ab: "a < k" "b < k" "a \<noteq> b"
    and rows: "\<And>j. j < k \<Longrightarrow> M ! (a * k + j) = M ! (b * k + j)"
  shows "invert_mat M k = Inl SingularMatrix"
proof -
  let ?w = "\<lambda>i. if i = a \<or> i = b then 1 else (0 :: byte)"
  have ker: "xsum (\<lambda>i. gf_mul_table (?w i) (Bm k M (replicate k 0) i j)) k = 0" if "j < k" for j
  proof -
    let ?F = "\<lambda>i. gf_mul_table (?w i) (Bm k M (replicate k 0) i j)"
    have "xsum ?F k = ?F a XOR xsum (\<lambda>i. if i = a then 0 else ?F i) k"
      by (rule xsum_remove [OF ab(1)])
    also have "xsum (\<lambda>i. if i = a then 0 else ?F i) k
               = xsum (\<lambda>i. if i = b then M ! (b * k + j) else 0) k"
      using ab(3) that by (intro xsum_cong) (auto simp: Bm_def)
    also have "\<dots> = M ! (b * k + j)" using ab(2) by (simp add: xsum_delta)
    also have "?F a = M ! (a * k + j)" using that by (simp add: Bm_def)
    finally show ?thesis using rows [OF that] by simp
  qed
  have "sing_inv k M (replicate k 0)"
    unfolding sing_inv_def
  proof (intro conjI exI [of _ ?w])
    show "length M = k * k" by fact
    show "ipiv_ok k (replicate k 0)" by (simp add: ipiv_ok_def)
    show "\<exists>i<k. ?w i \<noteq> 0" using ab(1) by (intro exI [of _ a]) simp
    show "\<forall>j<k. xsum (\<lambda>i. gf_mul_table (?w i) (Bm k M (replicate k 0) i j)) k = 0"
      using ker by blast
  qed
  moreover have "card (pivots k (replicate k 0)) = 0" by (simp add: pivots_def)
  ultimately have "pivot_loop k 0 (M, replicate k 0, replicate k 0, replicate k 0) = Inl SingularMatrix"
    by (intro pivot_loop_singular) simp_all
  then show ?thesis by (simp add: invert_mat_def)
qed

section \<open>Duplicated indices in \<open>decode\<close>\<close>

lemma has_dup_dup_where: "has_dup k index \<longleftrightarrow> dup_where (\<lambda>v. v < k) k index"
  by (simp add: has_dup_def dup_where_def)

lemma dup_where_transport:
  assumes "dup_where P k index"
    and t: "\<And>x. x < k \<Longrightarrow> t x < k" "\<And>x y. t x = t y \<Longrightarrow> x = y"
    and v: "\<And>x. x < k \<Longrightarrow> index' ! (t x) = index ! x"
  shows "dup_where P k index'"
proof -
  from assms(1) obtain a b where ab: "a < k" "b < k" "a \<noteq> b" "index ! a = index ! b" "P (index ! a)"
    unfolding dup_where_def by blast
  have "t a \<noteq> t b" using ab(3) t(2) by blast
  then show ?thesis
    unfolding dup_where_def using t(1) [OF ab(1)] t(1) [OF ab(2)] v [OF ab(1)] v [OF ab(2)] ab
    by (intro exI [of _ "t a"] conjI exI [of _ "t b"]) simp_all
qed

lemma dup_where_swap:
  assumes "i < k" "c < k" "length index = k"
  shows "dup_where P k (index[i := index ! c, c := index ! i]) \<longleftrightarrow> dup_where P k index"
proof
  let ?index' = "index[i := index ! c, c := index ! i]"
  have tv: "?index' ! (swp i c x) = index ! x" if "x < k" for x
    using that assms by (auto simp: swp_def nth_list_update)
  have tl: "swp i c x < k" if "x < k" for x using that assms by (simp add: swp_less)
  have ti: "x = y" if "swp i c x = swp i c y" for x y using that by (simp add: swp_eq_iff)
  show "dup_where P k index \<Longrightarrow> dup_where P k ?index'"
    by (rule dup_where_transport [where t = "swp i c"]) (use tv tl ti in auto)
  have tv': "index ! (swp i c x) = ?index' ! x" if "x < k" for x
    using tv [OF tl [OF that]] by simp
  show "dup_where P k ?index' \<Longrightarrow> dup_where P k index"
    by (rule dup_where_transport [where t = "swp i c"]) (use tv' tl ti in auto)
qed

lemma shuffle_loop_dup_where:
  "length index = k \<Longrightarrow> length pkt = k \<Longrightarrow>
   shuffle_loop pkt index k i swaps = Inr (code, pkt', index', s') \<Longrightarrow>
   (dup_where P k index' \<longleftrightarrow> dup_where P k index) \<and> (code = 1 \<longrightarrow> has_dup k index')"
proof (induction pkt index k i swaps rule: shuffle_loop.induct)
  case (1 pkt index k i swaps)
  show ?case
  proof (cases "i < k")
    case False
    with "1.prems" show ?thesis by (subst (asm) shuffle_loop.simps) auto
  next
    case ik: True
    show ?thesis
    proof (cases "index ! i \<ge> k \<or> index ! i = i")
      case True
      have "shuffle_loop pkt index k (i + 1) swaps = Inr (code, pkt', index', s')"
        using "1.prems"(3) ik True "1.prems"(1) by (subst (asm) shuffle_loop.simps) auto
      then show ?thesis using "1.IH"(1) ik True "1.prems" by simp
    next
      case nf: False
      let ?c = "index ! i"
      have c: "?c < k" "?c \<noteq> i" using nf by auto
      show ?thesis
      proof (cases "index ! ?c = ?c")
        case True
        then have r: "index' = index" "code = 1"
          using "1.prems"(3) ik nf "1.prems"(1,2)
          by (subst (asm) shuffle_loop.simps; simp add: Let_def)+
        have "has_dup k index"
          unfolding has_dup_def using ik c True by (intro exI [of _ i] conjI exI [of _ ?c]) simp_all
        then show ?thesis using r by simp
      next
        case cc: False
        let ?pkt = "pkt[i := pkt ! ?c, ?c := pkt ! i]"
        let ?index = "index[i := index ! ?c, ?c := index ! i]"
        have "shuffle_loop ?pkt ?index k i (swaps + 1) = Inr (code, pkt', index', s')"
          using "1.prems"(3) ik nf cc c "1.prems"(1,2)
          by (subst (asm) shuffle_loop.simps) (simp add: Let_def)
        then have "(dup_where P k index' \<longleftrightarrow> dup_where P k ?index) \<and> (code = 1 \<longrightarrow> has_dup k index')"
          using "1.IH"(2) [of ?c] ik nf cc c "1.prems" by simp
        then show ?thesis using dup_where_swap [OF ik c(1) "1.prems"(1), of P] by simp
      qed
    qed
  qed
qed

lemma shuffle_cases:
  assumes "length index = k" "length pkt = k"
  shows "\<exists>r pkt' index'. shuffle pkt index k = Inr (r, pkt', index')
           \<and> r = (if has_dup k index then 1 else 0)
           \<and> length index' = k \<and> mset index' = mset index
           \<and> (dup_where P k index' \<longleftrightarrow> dup_where P k index)"
proof -
  obtain code pkt' index' s' where r: "shuffle_loop pkt index k 0 0 = Inr (code, pkt', index', s')"
      and code: "code = 0 \<or> code = 1" and props: "length index' = k" "mset index' = mset index"
    using shuffle_loop_returns [OF assms(1,2), of 0 0] by blast
  have d: "dup_where P k index' \<longleftrightarrow> dup_where P k index" for P
    using shuffle_loop_dup_where [OF assms r] by simp
  have c1: "code = 1 \<Longrightarrow> has_dup k index"
    using shuffle_loop_dup_where [OF assms r, of "\<lambda>v. v < k"] by (auto simp: has_dup_dup_where)
  have c0: "has_dup k index \<Longrightarrow> code = 1"
  proof (rule ccontr)
    assume h: "has_dup k index" and "code \<noteq> 1"
    then have "code = 0" using code by simp
    moreover have "settled k index 0" by (simp add: settled_def)
    ultimately have "settled k index' k"
      using shuffle_loop_success [OF assms(1,2), of 0 0 pkt' index' s'] r by simp
    moreover have "has_dup k index'" using d [of "\<lambda>v. v < k"] h by (simp add: has_dup_dup_where)
    ultimately show False using settled_no_dup by blast
  qed
  have "code = (if has_dup k index then 1 else 0)" using c0 c1 code by auto
  then show ?thesis using r props d by (simp add: shuffle_def)
qed

lemma build_rows_spec:
  assumes enc: "n * k \<le> length enc" and idx: "\<And>i. i < k \<Longrightarrow> index ! i < n"
  shows "length matrix = k * k \<Longrightarrow> i \<le> k \<Longrightarrow>
     \<exists>m'. build_rows k n enc index i matrix = Inr m' \<and> length m' = k * k
        \<and> (\<forall>i'<k. \<forall>j<k. m' ! (i' * k + j)
              = (if i' < i then matrix ! (i' * k + j)
                 else if index ! i' < k then (if j = i' then 1 else 0)
                 else enc ! (index ! i' * k + j)))"
proof (induction "k - i" arbitrary: i matrix)
  case 0
  then have "i = k" by simp
  then show ?case using "0.prems" by (subst build_rows.simps) simp
next
  case (Suc x)
  then have ik: "i < k" by simp
  define row where "row = (if index ! i < k then (replicate k 0)[i := 1]
                           else take k (drop (index ! i * k) enc))"
  define m1 where "m1 = take (i * k) matrix @ row @ drop (i * k + k) matrix"
  have "(index ! i + 1) * k \<le> n * k" using idx [OF ik] by (intro mult_le_mono1) simp
  then have vb: "index ! i * k + k \<le> length enc" using enc by simp
  have lrow: "length row = k" using vb by (simp add: row_def)
  have rown: "row ! j = (if index ! i < k then (if j = i then 1 else 0) else enc ! (index ! i * k + j))"
    if "j < k" for j
    using that ik vb by (simp add: row_def nth_list_update)
  have step: "build_rows k n enc index i matrix = build_rows k n enc index (i + 1) m1"
  proof (cases "index ! i < k")
    case True
    have "(memset (drop (i * k) matrix) 0 k)[i := 1]
          = (replicate k 0)[i := 1] @ drop (i * k + k) matrix"
      using ik by (simp add: memset_def list_update_append1 add.commute)
    then show ?thesis using True ik
      by (subst build_rows.simps) (simp add: m1_def row_def)
  next
    case False
    have "memcpy (drop (i * k) matrix) (drop (index ! i * k) enc) k
          = take k (drop (index ! i * k) enc) @ drop (i * k + k) matrix"
      by (simp add: memcpy_def add.commute)
    then show ?thesis using False ik idx [OF ik]
      by (subst build_rows.simps) (simp add: m1_def row_def)
  qed
  have l1: "length m1 = k * k"
    unfolding m1_def by (rule replace_row_length [OF Suc.prems(1) ik lrow])
  have n1: "m1 ! (i' * k + j) = (if i' = i then row ! j else matrix ! (i' * k + j))"
    if "i' < k" "j < k" for i' j
    unfolding m1_def by (rule replace_row_nth [OF Suc.prems(1) ik lrow that])
  have "\<exists>m'. build_rows k n enc index (i + 1) m1 = Inr m' \<and> length m' = k * k
        \<and> (\<forall>i'<k. \<forall>j<k. m' ! (i' * k + j)
              = (if i' < i + 1 then m1 ! (i' * k + j)
                 else if index ! i' < k then (if j = i' then 1 else 0)
                 else enc ! (index ! i' * k + j)))"
    using Suc.hyps(2) l1 ik by (intro Suc.hyps(1)) simp_all
  then obtain m' where m': "build_rows k n enc index (i + 1) m1 = Inr m'" "length m' = k * k"
    "\<And>i' j. i' < k \<Longrightarrow> j < k \<Longrightarrow> m' ! (i' * k + j)
              = (if i' < i + 1 then m1 ! (i' * k + j)
                 else if index ! i' < k then (if j = i' then 1 else 0)
                 else enc ! (index ! i' * k + j))"
    by blast
  have "m' ! (i' * k + j)
        = (if i' < i then matrix ! (i' * k + j)
           else if index ! i' < k then (if j = i' then 1 else 0)
           else enc ! (index ! i' * k + j))" if "i' < k" "j < k" for i' j
    using m'(3) [OF that] n1 [OF that] rown [OF that(2)] by (auto simp: less_Suc_eq)
  then show ?case using step m'(1,2) by simp
qed

lemma build_decode_matrix_equal_rows:
  assumes enc: "n * k \<le> length enc" and idx: "\<And>i. i < k \<Longrightarrow> index ! i < n"
    and ab: "a < k" "b < k" "a \<noteq> b" "index ! a = index ! b" "k \<le> index ! a"
  shows "build_decode_matrix k n enc index = Inl SingularMatrix"
proof -
  have "\<exists>m'. build_rows k n enc index 0 (replicate (k * k) 0) = Inr m' \<and> length m' = k * k
        \<and> (\<forall>i'<k. \<forall>j<k. m' ! (i' * k + j)
              = (if i' < 0 then replicate (k * k) 0 ! (i' * k + j)
                 else if index ! i' < k then (if j = i' then 1 else 0)
                 else enc ! (index ! i' * k + j)))"
    by (intro build_rows_spec [OF enc idx]) simp_all
  then obtain m' where m': "build_rows k n enc index 0 (replicate (k * k) 0) = Inr m'" "length m' = k * k"
    "\<And>i' j. i' < k \<Longrightarrow> j < k \<Longrightarrow> m' ! (i' * k + j)
              = (if i' < 0 then replicate (k * k) 0 ! (i' * k + j)
                 else if index ! i' < k then (if j = i' then 1 else 0)
                 else enc ! (index ! i' * k + j))"
    by blast
  have "m' ! (a * k + j) = m' ! (b * k + j)" if "j < k" for j
    using m'(3) [OF ab(1) that] m'(3) [OF ab(2) that] ab(4,5) by simp
  then have "invert_mat m' k = Inl SingularMatrix"
    by (rule invert_mat_equal_rows [OF m'(2) ab(1-3)])
  then show ?thesis using m'(1) by (simp add: build_decode_matrix_def)
qed

lemma fec_code_ctor_Inr:
  assumes "fec_code_ctor k n = Some (Inr code)"
  shows "fec_k code = k \<and> fec_n code = n \<and> length (enc_matrix code) = n * k
         \<and> 1 \<le> k \<and> k \<le> n \<and> n \<le> 256 \<and> k \<le> 255"
proof -
  have a: "\<not> (k > 256 \<or> n > 256)"
    using assms unfolding fec_code_ctor_def by (cases "k > 256 \<or> n > 256") simp_all
  have b: "\<not> k > n"
    using assms a unfolding fec_code_ctor_def by (cases "k > n") simp_all
  have c: "n * k \<noteq> 0"
    using assms a b unfolding fec_code_ctor_def by (cases "n * k = 0") simp_all
  have "k \<noteq> 256"
  proof
    assume "k = 256"
    then have "build_enc_matrix k n m = Inl OutOfBounds" for m by (simp add: build_enc_matrix_256)
    then show False using assms a b c unfolding fec_code_ctor_def
      by (simp split: option.splits sum.splits)
  qed
  then have k: "1 \<le> k" "k \<le> n" "n \<le> 256" "k \<le> 255" using a b c by auto
  from fec_code_ctor_succeeds [OF k] assms show ?thesis using k by auto
qed

text \<open>
  C9 (duplicated parity index), as amended: for a codec returned by the constructor and an
  index array of \<open>k\<close> entries, all below \<open>n\<close>, two of which hold the same parity index
  (\<open>k \<le> v < n\<close>), \<open>decode\<close> never returns success. It fails with \<open>SingularMatrix\<close> (\<open>shuffle\<close>
  passes, the decode matrix has two equal rows and \<open>invert_mat\<close> finds no pivot), unless the
  index array also holds a source index twice: then \<open>shuffle\<close> fails first and \<open>decode\<close> fails
  with \<open>DuplicateIndex\<close>.
\<close>

theorem decode_duplicate_parity:
  assumes "fec_code_ctor k n = Some (Inr code)"
    and "length index = k" "length pkt = k" "\<forall>i<k. index ! i < n"
    and "a < k" "b < k" "a \<noteq> b" "index ! a = index ! b" "k \<le> index ! a"
  shows "decode code pkt index sz
         = Inl (if has_dup k index then DuplicateIndex else SingularMatrix)"
proof -
  have code: "fec_k code = k" "fec_n code = n" "length (enc_matrix code) = n * k"
    using fec_code_ctor_Inr [OF assms(1)] by simp_all
  let ?P = "\<lambda>v. k \<le> v"
  obtain r pkt1 index1 where sh: "shuffle pkt index k = Inr (r, pkt1, index1)"
    and r: "r = (if has_dup k index then 1 else 0)"
    and i1: "length index1 = k" "mset index1 = mset index"
    and d: "dup_where ?P k index1 \<longleftrightarrow> dup_where ?P k index"
    using shuffle_cases [OF assms(2,3), of ?P] by blast
  show ?thesis
  proof (cases "has_dup k index")
    case True
    then show ?thesis using sh r code by (simp add: decode_def)
  next
    case False
    have "dup_where ?P k index"
      unfolding dup_where_def using assms(5-9) by blast
    then obtain a' b' where ab: "a' < k" "b' < k" "a' \<noteq> b'" "index1 ! a' = index1 ! b'" "k \<le> index1 ! a'"
      using d unfolding dup_where_def by blast
    have "set index1 = set index" using i1(2) by (rule mset_eq_setD)
    then have idx: "index1 ! i < n" if "i < k" for i
      using that i1(1) assms(2,4) by (metis in_set_conv_nth)
    have "build_decode_matrix k n (enc_matrix code) index1 = Inl SingularMatrix"
      using build_decode_matrix_equal_rows [OF _ idx ab] code(3) by simp
    then show ?thesis using False sh r code by (simp add: decode_def)
  qed
qed

theorem decode_duplicate_parity_witness:
  "fec_code_ctor 2 4
     = Some (Inr \<lparr>fec_k = 2, fec_n = 4, enc_matrix = [1, 0, 0, 1, 3, 2, 5, 4]\<rparr>)
   \<and> decode \<lparr>fec_k = 2, fec_n = 4, enc_matrix = [1, 0, 0, 1, 3, 2, 5, 4]\<rparr>
        [[1], [2]] [2, 2] 1 = Inl SingularMatrix"
proof -
  let ?code = "\<lparr>fec_k = 2, fec_n = 4, enc_matrix = [1, 0, 0, 1, 3, 2, 5, 4]\<rparr>"
  have h1: "fec_code_ctor 2 4 = Some (Inr ?code)" by code_simp
  have h2: "length [2, 2 :: nat] = 2" and h3: "length [[1], [2 :: byte]] = 2" by simp_all
  have h4: "\<forall>i<2. [2, 2 :: nat] ! i < 4" by (simp add: nth_Cons' )
  have h5: "(0 :: nat) < 2" and h6: "(1 :: nat) < 2" and h7: "(0 :: nat) \<noteq> 1" by simp_all
  have h8: "[2, 2 :: nat] ! 0 = [2, 2] ! 1" and h9: "(2 :: nat) \<le> [2, 2] ! 0" by simp_all
  have nd: "\<not> has_dup 2 [2, 2]" by (simp add: has_dup_def nth_Cons')
  show ?thesis
    using h1 nd decode_duplicate_parity [OF h1 h2 h3 h4 h5 h6 h7 h8 h9, of 1] by simp
qed

theorem decode_duplicate_parity_counterexample:
  "fec_code_ctor 4 5
     = Some (Inr \<lparr>fec_k = 4, fec_n = 5,
                   enc_matrix = [1, 0, 0, 0, 0, 1, 0, 0, 0, 0, 1, 0, 0, 0, 0, 1, 119, 64, 56, 14]\<rparr>)
   \<and> decode \<lparr>fec_k = 4, fec_n = 5,
               enc_matrix = [1, 0, 0, 0, 0, 1, 0, 0, 0, 0, 1, 0, 0, 0, 0, 1, 119, 64, 56, 14]\<rparr>
        [[1], [1], [7], [7]] [0, 0, 4, 4] 1 = Inl DuplicateIndex"
  by code_simp

section \<open>The contract of \<open>addmul\<close>\<close>

text \<open>
  C5 (contract of \<open>addmul\<close>): for every coefficient \<open>c\<close>, every length \<open>sz \<ge> 0\<close> and
  buffers \<open>dst\<close> and \<open>src\<close> of at least \<open>sz\<close> bytes, \<open>addmul\<close> sets \<open>dst[i]\<close> to the old
  \<open>dst[i]\<close> XOR the table product of \<open>c\<close> and \<open>src[i]\<close> for every \<open>i < sz\<close> and changes no
  other byte; the table product is the product in GF(2^8); with \<open>c = 0\<close> it leaves \<open>dst\<close>
  as it is. So the loop unrolled 16 times together with the tail loop computes the per-index
  definition, for every \<open>sz\<close>.
\<close>

theorem addmul_contract:
  assumes "0 \<le> sz" "nat sz \<le> length dst" "nat sz \<le> length src"
  shows "length (addmul dst src c sz) = length dst
    \<and> (\<forall>i<length dst. addmul dst src c sz ! i
          = (if i < nat sz then (dst ! i) XOR gf_mul_table c (src ! i) else dst ! i))
    \<and> (\<forall>x. gf_mul_table c x = gf256_mul c x)
    \<and> (c = 0 \<longrightarrow> addmul dst src c sz = dst)"
proof (cases "c = 0")
  case True
  then show ?thesis by (simp add: addmul_def gf_mul_table_gf256_mul [symmetric])
next
  case False
  then show ?thesis using addmul_eq_xor_range [OF assms(1,2) False]
    by (simp add: nth_xor_range gf_mul_table_gf256_mul [symmetric])
qed

theorem addmul_contract_witness:
  "(0 :: int) \<le> 18
   \<and> nat 18 \<le> length [1, 2, 3, 4, 5, 6, 7, 8, 9, 10, 11, 12, 13, 14, 15, 16, 17, 18, 19, 20 :: byte]
   \<and> nat 18 \<le> length (replicate 20 (1 :: byte))
   \<and> addmul [1, 2, 3, 4, 5, 6, 7, 8, 9, 10, 11, 12, 13, 14, 15, 16, 17, 18, 19, 20]
         (replicate 20 1) 3 18 ! 17 = 18 XOR gf_mul_table 3 1
   \<and> addmul [1, 2, 3, 4, 5, 6, 7, 8, 9, 10, 11, 12, 13, 14, 15, 16, 17, 18, 19, 20]
         (replicate 20 1) 3 18 ! 18 = 19"
proof -
  let ?dst = "[1, 2, 3, 4, 5, 6, 7, 8, 9, 10, 11, 12, 13, 14, 15, 16, 17, 18, 19, 20 :: byte]"
  let ?src = "replicate 20 (1 :: byte)"
  have h1: "(0 :: int) \<le> 18" by simp
  have h2: "nat 18 \<le> length ?dst" by simp
  have h3: "nat 18 \<le> length ?src" by simp
  have a: "(17 :: nat) < length ?dst" and b: "(18 :: nat) < length ?dst" by simp_all
  from addmul_contract [OF h1 h2 h3, of 3]
  have "\<forall>i<length ?dst. addmul ?dst ?src 3 18 ! i
          = (if i < nat 18 then (?dst ! i) XOR gf_mul_table 3 (?src ! i) else ?dst ! i)"
    by blast
  from this [rule_format, OF a] this [rule_format, OF b] show ?thesis by simp
qed

section \<open>Properties of \<open>decode\<close>\<close>

text \<open>
  C10 (\<open>shuffle\<close> terminates): for arrays \<open>pkt\<close> and \<open>index\<close> of \<open>k\<close> entries, whatever the
  index values, the loop of \<open>shuffle\<close> returns, with code 0 (success) or 1 (error), after
  at most \<open>k\<close> swaps.
\<close>

theorem shuffle_terminates:
  assumes "length index = k" "length pkt = k"
  shows "\<exists>code pkt' index' swaps.
           shuffle_loop pkt index k 0 0 = Inr (code, pkt', index', swaps)
           \<and> (code = 0 \<or> code = 1) \<and> swaps \<le> k"
proof -
  obtain code pkt' index' s' where
    "shuffle_loop pkt index k 0 0 = Inr (code, pkt', index', s')" "code = 0 \<or> code = 1"
    "s' \<le> 0 + card (unfixed index)"
    using shuffle_loop_returns [OF assms, of 0 0] by blast
  moreover have "card (unfixed index) \<le> k" using card_unfixed_le [of index] assms by simp
  ultimately show ?thesis by auto
qed

theorem shuffle_terminates_witness:
  "length [3, 0, 9, 1 :: nat] = 4 \<and> length [10, 11, 12, 13 :: nat] = 4
   \<and> (\<exists>code pkt' index' swaps.
          shuffle_loop [10, 11, 12, 13 :: nat] [3, 0, 9, 1] 4 0 0 = Inr (code, pkt', index', swaps)
          \<and> (code = 0 \<or> code = 1) \<and> swaps \<le> 4)"
proof -
  have h1: "length [3, 0, 9, 1 :: nat] = 4" and h2: "length [10, 11, 12, 13 :: nat] = 4"
    by simp_all
  show ?thesis using h1 h2 shuffle_terminates [OF h1 h2] by simp
qed

text \<open>
  C6 (duplicate source slot): when two distinct positions of the index array (of \<open>k\<close>
  entries) hold the same value below \<open>k\<close>, \<open>decode\<close> fails with \<open>DuplicateIndex\<close>.
\<close>

theorem decode_duplicate_index:
  assumes "length index = fec_k code" "length pkt = fec_k code"
    and "a < fec_k code" "b < fec_k code" "a \<noteq> b" "index ! a = index ! b" "index ! a < fec_k code"
  shows "decode code pkt index sz = Inl DuplicateIndex"
proof -
  have "has_dup (fec_k code) index" unfolding has_dup_def using assms(3-7) by blast
  then obtain pkt' index' where "shuffle pkt index (fec_k code) = Inr (1, pkt', index')"
    using shuffle_cases [OF assms(1,2), of "\<lambda>v. True"] by auto
  then show ?thesis by (simp add: decode_def)
qed

theorem decode_duplicate_index_witness:
  "(case fec_code_ctor 10 20 of
      Some (Inr code) \<Rightarrow>
        decode code (replicate 10 [0]) [0, 0, 1, 2, 3, 4, 5, 6, 7, 8] 1 = Inl DuplicateIndex
    | _ \<Rightarrow> False)"
proof -
  obtain code where c: "fec_code_ctor 10 20 = Some (Inr code)" "fec_k code = 10"
    using fec_code_ctor_succeeds [of 10 20] by auto
  let ?index = "[0, 0, 1, 2, 3, 4, 5, 6, 7, 8 :: nat]"
  have "decode code (replicate 10 [0]) ?index 1 = Inl DuplicateIndex"
    using decode_duplicate_index [of ?index code "replicate 10 [0]" 0 1 1] c(2) by simp
  then show ?thesis using c(1) by simp
qed

text \<open>
  C8 (index array after \<open>decode\<close>), as amended: after a successful \<open>decode\<close> the index array
  is the one \<open>shuffle\<close> returned: a permutation of the one passed in, in which every position
  \<open>i < k\<close> holds either \<open>i\<close> itself (a source shard, moved to its place by \<open>shuffle\<close>) or a
  parity index \<open>\<ge> k\<close>, which \<open>decode\<close> leaves there: the entries of reconstructed positions
  are not rewritten.
\<close>

theorem decode_index_postcondition:
  assumes "length index = fec_k code" "length pkt = fec_k code"
    and "decode code pkt index sz = Inr (pkt', index')"
  shows "(\<forall>i<fec_k code. index' ! i = i \<or> index' ! i \<ge> fec_k code)
         \<and> mset index' = mset index \<and> length index' = fec_k code
         \<and> (\<exists>pkt1. shuffle pkt index (fec_k code) = Inr (0, pkt1, index'))"
proof -
  let ?k = "fec_k code"
  obtain r pkt1 index1 s' where r: "shuffle_loop pkt index ?k 0 0 = Inr (r, pkt1, index1, s')"
    and props: "length index1 = ?k" "mset index1 = mset index"
    using shuffle_loop_returns [OF assms(1,2), of 0 0] by blast
  have sh: "shuffle pkt index ?k = Inr (r, pkt1, index1)" using r by (simp add: shuffle_def)
  have r0: "r = 0" and i1: "index' = index1"
    using assms(3) sh by (auto simp: decode_def Let_def split: if_splits sum.splits)
  have "settled ?k index 0" by (simp add: settled_def)
  then have "settled ?k index1 ?k"
    using shuffle_loop_success [OF assms(1,2), of 0 0 pkt1 index1 s'] r r0 by simp
  then show ?thesis using props i1 sh r0 unfolding settled_def by auto
qed

theorem decode_index_postcondition_witness:
  "decode \<lparr>fec_k = 3, fec_n = 5,
           enc_matrix = [1, 0, 0, 0, 1, 0, 0, 0, 1, 15, 8, 6, 45, 48, 28]\<rparr>
     [[2], [21], [105]] [1, 3, 4] 1 = Inr ([[1], [2], [3]], [3, 1, 4])
   \<and> mset [3, 1, 4 :: nat] = mset [1, 3, 4] \<and> length [3, 1, 4 :: nat] = 3"
proof -
  let ?code = "\<lparr>fec_k = 3, fec_n = 5,
                enc_matrix = [1, 0, 0, 0, 1, 0, 0, 0, 1, 15, 8, 6, 45, 48, 28]\<rparr>"
  have h1: "length [1, 3, 4 :: nat] = fec_k ?code" by simp
  have h2: "length [[2], [21], [105 :: byte]] = fec_k ?code" by simp
  have h3: "decode ?code [[2], [21], [105]] [1, 3, 4] 1 = Inr ([[1], [2], [3]], [3, 1, 4])"
    by code_simp
  show ?thesis using h3 decode_index_postcondition [OF h1 h2 h3] by simp
qed

theorem decode_index_counterexample:
  "fec_code_ctor 1 2 = Some (Inr \<lparr>fec_k = 1, fec_n = 2, enc_matrix = [1, 1]\<rparr>)
   \<and> decode \<lparr>fec_k = 1, fec_n = 2, enc_matrix = [1, 1]\<rparr> [[7]] [1] 1 = Inr ([[7]], [1])"
  by code_simp

text \<open>
  C1 (round trip): the property fails at \<open>k = n = 256\<close>, where the constructor does not
  return a codec (see C2), so that nothing can be encoded or decoded.
\<close>

theorem roundtrip_256:
  "roundtrip 256 256 src index sz = Some (Inl OutOfBounds)"
proof -
  obtain m1 where m1: "fill_tmp_m 256 256 = Some (Inr m1)"
    using fill_tmp_m_returns [of 256 256] by auto
  obtain m2 where m2: "invert_vdm m1 256 = Inr m2"
    using invert_vdm_returns [of 256 m1] by auto
  have "fec_code_ctor 256 256 = Some (Inl OutOfBounds)"
    using m1 m2 by (simp add: fec_code_ctor_def build_enc_matrix_256)
  then show ?thesis by (simp add: roundtrip_def)
qed

text \<open>
  At the first three scenarios of the spec, where \<open>k < 256\<close>, the round trip does return the
  source shards.
\<close>

lemma roundtrip_scenario_1:
  "roundtrip 1 1 [[0x11, 0x22, 0x33, 0x44]] [0] 4 = Some (Inr ([[0x11, 0x22, 0x33, 0x44]], [0]))"
  by code_simp

lemma roundtrip_scenario_2:
  "roundtrip 3 5 [[1], [2], [3]] [1, 3, 4] 1 = Some (Inr ([[1], [2], [3]], [3, 1, 4]))"
  by code_simp

lemma roundtrip_scenario_3:
  "roundtrip 2 4 [replicate 8 0, replicate 8 0xFF] [2, 3] 8
     = Some (Inr ([replicate 8 0, replicate 8 0xFF], [2, 3]))"
  by code_simp

section \<open>Properties of \<open>invert_vdm\<close>\<close>

text \<open>
  C7 (\<open>invert_vdm\<close> with \<open>k = 1\<close>), as amended: \<open>invert_vdm(V, 1)\<close> returns at once and
  leaves \<open>V\<close> as it is; the result is the 1 by 1 identity when \<open>V\<close> holds 1 already, as the
  only 1 by 1 Vandermonde matrix does.
\<close>

theorem invert_vdm_k1: "invert_vdm V 1 = Inr V \<and> invert_vdm [1] 1 = Inr [1]"
  by (simp add: invert_vdm_def)

theorem invert_vdm_k1_counterexample: "invert_vdm [5] 1 = Inr [5]"
  by (simp add: invert_vdm_def)

end
